theory Spec2Isabelle
  imports Main
begin

section \<open>The option parser of nvme-cli (util/parser.c)\<close>

text \<open>
  A shallow embedding of \<^verbatim>\<open>util/parser.c\<close>: the pattern matcher \<^verbatim>\<open>match_one\<close>,
  the table matcher \<^verbatim>\<open>match_token\<close>, the numeric extractors, the wildcard matcher
  and the two string copies.

  Conventions of the embedding.
  \<^item> A C string is the list of the bytes before its terminating NUL, so the end of the
    list is the terminator and \<^verbatim>\<open>*s == 0\<close> reads \<open>s = []\<close>.
  \<^item> A pointer into the subject buffer is an offset (\<open>nat\<close>) from its start; a
    \<^verbatim>\<open>substring_t\<close> is a pair of such offsets.
  \<^item> The integer types are those of Linux on a 64-bit machine: \<^verbatim>\<open>int\<close> has 32 bits,
    \<^verbatim>\<open>long\<close>, \<^verbatim>\<open>unsigned long\<close> and \<^verbatim>\<open>size_t\<close> have 64. A conversion to a
    narrower or differently signed type keeps the low bits, written out with \<open>mod\<close>.
    Lengths of strings in memory are \<open>nat\<close>.
  \<^item> \<^verbatim>\<open>MAX_OPT_ARGS\<close> is declared in \<^verbatim>\<open>parser.h\<close>; it is the parameter \<open>mx\<close>
    of every function that uses it.
\<close>

subsection \<open>Integer types and error numbers\<close>

definition INT_MAX :: int where "INT_MAX = 2147483647"
definition INT_MIN :: int where "INT_MIN = - 2147483648"
definition LONG_MAX :: int where "LONG_MAX = 9223372036854775807"
definition LONG_MIN :: int where "LONG_MIN = - 9223372036854775808"
definition ULONG_MAX :: int where "ULONG_MAX = 18446744073709551615"

text \<open>The values of \<^verbatim>\<open>errno.h\<close> on Linux.\<close>

definition ENOMEM :: int where "ENOMEM = 12"
definition EINVAL :: int where "EINVAL = 22"
definition ERANGE :: int where "ERANGE = 34"

text \<open>Conversion of an integer value to \<^verbatim>\<open>int\<close> and to \<^verbatim>\<open>size_t\<close>.\<close>

definition to_int :: "int \<Rightarrow> int" where
  "to_int v = (v + 2 ^ 31) mod 2 ^ 32 - 2 ^ 31"

definition to_size_t :: "int \<Rightarrow> int" where
  "to_size_t v = v mod 2 ^ 64"

subsection \<open>The C library: character classes, strtol and strtoul\<close>

text \<open>
  These are functions of the C library, modelled after ISO C (in the C locale):
  \<^verbatim>\<open>strtol\<close> and \<^verbatim>\<open>strtoul\<close> skip white space, read an optional sign, an optional
  \<^verbatim>\<open>0x\<close> prefix (base 16, or base 0) and the longest run of digits of the base; with no
  digit nothing is consumed. Each returns the value and the number of characters
  consumed (the distance of \<^verbatim>\<open>endptr\<close> from the start).
\<close>

definition isdigit :: "char \<Rightarrow> bool" where
  "isdigit c = (48 \<le> (of_char c :: nat) \<and> (of_char c :: nat) \<le> 57)"

definition isspace :: "char \<Rightarrow> bool" where
  "isspace c = ((of_char c :: nat) = 32 \<or> (9 \<le> (of_char c :: nat) \<and> (of_char c :: nat) \<le> 13))"

definition digit_of :: "char \<Rightarrow> nat" where
  "digit_of c =
     (let n = (of_char c :: nat)
      in if 48 \<le> n \<and> n \<le> 57 then n - 48
         else if 97 \<le> n \<and> n \<le> 122 then n - 87
         else if 65 \<le> n \<and> n \<le> 90 then n - 55
         else 36)"

definition has_hex_prefix :: "string \<Rightarrow> bool" where
  "has_hex_prefix r =
     (case r of
        z # x # h # _ \<Rightarrow> z = CHR ''0'' \<and> (x = CHR ''x'' \<or> x = CHR ''X'') \<and> digit_of h < 16
      | _ \<Rightarrow> False)"

definition sign_len :: "string \<Rightarrow> nat" where
  "sign_len r = (case r of [] \<Rightarrow> 0 | c # _ \<Rightarrow> if c = CHR ''-'' \<or> c = CHR ''+'' then 1 else 0)"

definition is_minus :: "string \<Rightarrow> bool" where
  "is_minus r = (case r of [] \<Rightarrow> False | c # _ \<Rightarrow> c = CHR ''-'')"

definition strto_scan :: "nat \<Rightarrow> string \<Rightarrow> bool \<times> int \<times> nat" where
  "strto_scan base str =
     (let ws = takeWhile isspace str;
          r1 = dropWhile isspace str;
          sgn = sign_len r1;
          r2 = drop sgn r1;
          hex = ((base = 0 \<or> base = 16) \<and> has_hex_prefix r2);
          b = (if base = 0
               then (if hex then 16 else if take 1 r2 = ''0'' then 8 else 10)
               else base);
          r3 = (if hex then drop 2 r2 else r2);
          ds = takeWhile (\<lambda>c. digit_of c < b) r3
      in if ds = [] then (False, 0, 0)
         else (is_minus r1,
               foldl (\<lambda>a c. a * int b + int (digit_of c)) 0 ds,
               length ws + sgn + (if hex then 2 else 0) + length ds))"

definition strtol :: "nat \<Rightarrow> string \<Rightarrow> int \<times> nat" where
  "strtol base str =
     (case strto_scan base str of
        (neg, m, n) \<Rightarrow>
          (max LONG_MIN (min LONG_MAX (if neg then - m else m)), n))"

definition strtoul :: "nat \<Rightarrow> string \<Rightarrow> int \<times> nat" where
  "strtoul base str =
     (case strto_scan base str of
        (neg, m, n) \<Rightarrow>
          (if ULONG_MAX < m then ULONG_MAX
           else if neg then (- m) mod 2 ^ 64
           else m, n))"

subsection \<open>Substring references\<close>

text \<open>
  \<^verbatim>\<open>substring_t\<close> holds two pointers \<^verbatim>\<open>from\<close> and \<^verbatim>\<open>to\<close> into the subject buffer
  (\<open>from\<close> is a keyword of Isabelle, hence the prefix). \<open>substring buf s\<close> is the text
  between them, \<^verbatim>\<open>s->to - s->from\<close> bytes from \<^verbatim>\<open>s->from\<close>; the C code reads it with
  \<^verbatim>\<open>memcpy\<close> and expects \<open>sub_from s \<le> sub_to s \<le> length buf\<close>.
\<close>

record substring_t =
  sub_from :: nat
  sub_to :: nat

definition substring :: "string \<Rightarrow> substring_t \<Rightarrow> string" where
  "substring buf s = take (sub_to s - sub_from s) (drop (sub_from s) buf)"

subsection \<open>match\_number and its three entry points\<close>

text \<open>
  \<^verbatim>\<open>match_number(s, result, base)\<close>. The first argument of the model says whether
  \<^verbatim>\<open>malloc\<close> succeeds, the second is the buffer the substring points into, \<open>result\<close> is
  the value of \<^verbatim>\<open>*result\<close> before the call. The function returns the return value and
  the value of \<^verbatim>\<open>*result\<close> after the call.
\<close>

definition match_number :: "bool \<Rightarrow> string \<Rightarrow> substring_t \<Rightarrow> int \<Rightarrow> nat \<Rightarrow> int \<times> int" where
  "match_number alloc buf s result base =
     (if \<not> alloc then (- ENOMEM, result)
      else
        (case strtol base (substring buf s) of
           (val, n) \<Rightarrow>
             if n = 0 then (- EINVAL, result)
             else if val < INT_MIN \<or> val > INT_MAX then (- ERANGE, result)
             else (0, to_int val)))"

definition match_int :: "bool \<Rightarrow> string \<Rightarrow> substring_t \<Rightarrow> int \<Rightarrow> int \<times> int" where
  "match_int alloc buf s result = match_number alloc buf s result 0"

definition match_octal :: "bool \<Rightarrow> string \<Rightarrow> substring_t \<Rightarrow> int \<Rightarrow> int \<times> int" where
  "match_octal alloc buf s result = match_number alloc buf s result 8"

definition match_hex :: "bool \<Rightarrow> string \<Rightarrow> substring_t \<Rightarrow> int \<Rightarrow> int \<times> int" where
  "match_hex alloc buf s result = match_number alloc buf s result 16"

subsection \<open>match\_one\<close>

text \<open>
  The caller's array \<^verbatim>\<open>args\<close> is a store: \<open>args i\<close> is the cell \<^verbatim>\<open>args[i]\<close>, for
  every index, so that a write past the end of the array would be visible. The state of
  the loop of \<^verbatim>\<open>match_one\<close> is the cursor \<^verbatim>\<open>s\<close> (an offset into the subject), the rest
  \<^verbatim>\<open>p\<close> of the pattern, the array and \<^verbatim>\<open>argc\<close>. A run ends with the return value, the
  array and the last value of \<^verbatim>\<open>argc\<close>.
\<close>

type_synonym args_t = "nat \<Rightarrow> substring_t"

type_synonym match_state = "nat \<times> string \<times> args_t \<times> nat"

type_synonym match_result = "bool \<times> args_t \<times> nat"

text \<open>
  The label \<^verbatim>\<open>num\<close> (lines 83 to 86, then 90 and 91): \<^verbatim>\<open>strtol\<close> or \<^verbatim>\<open>strtoul\<close> has
  stored \<^verbatim>\<open>args[argc].to\<close>, \<open>n\<close> characters after the cursor.
\<close>

definition num_arg :: "nat \<Rightarrow> string \<Rightarrow> args_t \<Rightarrow> nat \<Rightarrow> nat \<Rightarrow> match_result + match_state" where
  "num_arg s p args argc n =
     (let args2 = args(argc := \<lparr>sub_from = s, sub_to = s + n\<rparr>)
      in if s + n = s then Inl (False, args2, argc)
         else Inr (s + n, p, args2, argc + 1))"

text \<open>
  Lines 57 to 91: the capacity check, the store of \<^verbatim>\<open>args[argc].from\<close> and the switch
  on the conversion character. \<open>len\<close> is the field width (\<open>- 1\<close> when the pattern gives
  none) and \<open>p\<close> the pattern from the conversion character on.

  The model follows the code for subjects shorter than \<open>2 ^ 31\<close> bytes only. With
  \<open>2 ^ 31\<close> bytes or more left at a \<^verbatim>\<open>%s\<close>, line 68 stores \<^verbatim>\<open>str_len\<close> in the
  \<^verbatim>\<open>int len\<close>, which can turn negative, and \<^verbatim>\<open>s + len\<close> at line 69 then points before
  the cursor, possibly outside the subject, where the behaviour of the C program is
  undefined; the model has no offset before the start of the subject and takes \<open>0\<close>
  (the \<open>nat\<close> below). Every theorem that depends on where a \<^verbatim>\<open>%s\<close> span ends, or on
  whether a pattern with \<^verbatim>\<open>%s\<close> matches, assumes \<open>length subj < 2 ^ 31\<close>.
\<close>

definition take_arg ::
  "nat \<Rightarrow> string \<Rightarrow> nat \<Rightarrow> int \<Rightarrow> string \<Rightarrow> args_t \<Rightarrow> nat \<Rightarrow> match_result + match_state" where
  "take_arg mx subj s len p args argc =
     (if argc \<ge> mx then Inl (False, args, argc)
      else
        let args1 = args(argc := (args argc)\<lparr>sub_from := s\<rparr>)
        in case p of
             [] \<Rightarrow> Inl (False, args1, argc)
           | c # p' \<Rightarrow>
               if c = CHR ''s'' then
                 (let str_len = length (drop s subj)
                  in if str_len = 0 then Inl (False, args1, argc)
                     else
                       let len' = (if len = - 1 \<or> to_size_t len > int str_len
                                   then to_int (int str_len) else len);
                           e = nat (int s + len')
                       in Inr (e, p', args1(argc := \<lparr>sub_from = s, sub_to = e\<rparr>), argc + 1))
               else if c = CHR ''d'' then num_arg s p' args1 argc (snd (strtol 0 (drop s subj)))
               else if c = CHR ''u'' then num_arg s p' args1 argc (snd (strtoul 0 (drop s subj)))
               else if c = CHR ''o'' then num_arg s p' args1 argc (snd (strtoul 8 (drop s subj)))
               else if c = CHR ''x'' then num_arg s p' args1 argc (snd (strtoul 16 (drop s subj)))
               else Inl (False, args1, argc))"

text \<open>
  One pass through the body of \<^verbatim>\<open>while(1)\<close>: \<open>Inl\<close> is a \<^verbatim>\<open>return\<close>, \<open>Inr\<close> the
  state at the next iteration. \<open>n\<close> is \<^verbatim>\<open>meta - p\<close>, the number of characters before the
  first \<^verbatim>\<open>%\<close>. \<^verbatim>\<open>strncmp(p, s, n)\<close> is 0 exactly when the subject has the same \<open>n\<close>
  characters at the cursor, since none of the \<open>n\<close> pattern characters is NUL.
\<close>

definition match_step :: "nat \<Rightarrow> string \<Rightarrow> match_state \<Rightarrow> match_result + match_state" where
  "match_step mx subj st =
     (case st of
        (s, p, args, argc) \<Rightarrow>
          let n = length (takeWhile (\<lambda>c. c \<noteq> CHR ''%'') p)
          in case drop n p of
               [] \<Rightarrow> Inl (p = drop s subj, args, argc)
             | _ # p1 \<Rightarrow>
                 if take n p \<noteq> take n (drop s subj) then Inl (False, args, argc)
                 else
                   (case p1 of
                      [] \<Rightarrow> take_arg mx subj (s + n) (- 1) p1 args argc
                    | c # p2 \<Rightarrow>
                        if isdigit c then
                          (case strtoul 10 p1 of
                             (w, k) \<Rightarrow> take_arg mx subj (s + n) (to_int w) (drop k p1) args argc)
                        else if c = CHR ''%'' then
                          (if take 1 (drop (s + n) subj) = ''%''
                           then Inr (s + n + 1, p2, args, argc)
                           else Inl (False, args, argc))
                        else take_arg mx subj (s + n) (- 1) p1 args argc))"

lemma take_arg_shorter:
  "take_arg mx subj s len p args argc = Inr (s', p', args', argc') \<Longrightarrow> length p' < length p"
  by (auto simp: take_arg_def num_arg_def Let_def split: if_splits list.splits)

lemma match_step_shorter:
  assumes "match_step mx subj (s, p, args, argc) = Inr (s', p', args', argc')"
  shows "length p' < length p"
proof -
  let ?n = "length (takeWhile (\<lambda>c. c \<noteq> CHR ''%'') p)"
  obtain x p1 where d: "drop ?n p = x # p1"
    using assms by (auto simp: match_step_def Let_def split: list.splits)
  have l: "length p = ?n + Suc (length p1)"
    using arg_cong [OF d, of length] length_takeWhile_le [of "\<lambda>c. c \<noteq> CHR ''%''" p] by simp
  have "length p' \<le> length p1"
    using assms d
    by (auto simp: match_step_def Let_def split: list.splits if_splits prod.splits
        dest!: take_arg_shorter)
  with l show ?thesis by simp
qed

function match_loop :: "nat \<Rightarrow> string \<Rightarrow> match_state \<Rightarrow> match_result" where
  "match_loop mx subj st =
     (case match_step mx subj st of
        Inl r \<Rightarrow> r
      | Inr st' \<Rightarrow> match_loop mx subj st')"
  by pat_completeness auto
termination
  by (relation "measure (\<lambda>(mx, subj, s, p, args, argc). length p)")
     (auto dest: match_step_shorter)

declare match_loop.simps [simp del]

text \<open>
  \<^verbatim>\<open>match_one(s, p, args)\<close>: the pattern is \<open>None\<close> for the null pointer. The result is
  the return value (nonzero as \<open>True\<close>) and the array after the call.
\<close>

definition match_one :: "nat \<Rightarrow> string \<Rightarrow> string option \<Rightarrow> args_t \<Rightarrow> bool \<times> args_t" where
  "match_one mx s p args =
     (case p of
        None \<Rightarrow> (True, args)
      | Some pat \<Rightarrow> (case match_loop mx s (0, pat, args, 0) of (r, args', argc) \<Rightarrow> (r, args')))"

subsection \<open>match\_token\<close>

text \<open>
  \<^verbatim>\<open>struct match_token\<close> is declared in \<^verbatim>\<open>parser.h\<close>: a token and a pattern. A table is
  the list of its entries in memory order. The loop of \<^verbatim>\<open>match_token\<close> has no bound of
  its own: with no entry that matches it reads past the table, which is \<open>None\<close> here.
\<close>

record match_token_t =
  token :: int
  pattern :: "string option"

type_synonym match_table_t = "match_token_t list"

fun match_token :: "nat \<Rightarrow> string \<Rightarrow> match_table_t \<Rightarrow> args_t \<Rightarrow> (int \<times> args_t) option" where
  "match_token mx s [] args = None"
| "match_token mx s (e # tbl) args =
     (case match_one mx s (pattern e) args of
        (r, args') \<Rightarrow> if r then Some (token e, args') else match_token mx s tbl args')"

subsection \<open>match\_wildcard\<close>

text \<open>
  The state of the loop is \<^verbatim>\<open>pattern\<close>, \<^verbatim>\<open>str\<close> (the two parameters, which the loop
  reuses as the place to go back to), the cursors \<^verbatim>\<open>p\<close> and \<^verbatim>\<open>s\<close>, and \<^verbatim>\<open>star\<close>. One
  step is one test of the loop condition followed by one pass through the body, or,
  when the subject is exhausted, the two lines after the loop.
\<close>

type_synonym wc_state = "string \<times> string \<times> string \<times> string \<times> bool"

definition wc_step :: "wc_state \<Rightarrow> bool + wc_state" where
  "wc_step st =
     (case st of
        (pat, str, p, s, star) \<Rightarrow>
          (case s of
             [] \<Rightarrow> Inl (p = [] \<or> p = ''*'')
           | sc # s' \<Rightarrow>
               if take 1 p = ''?'' then Inr (pat, str, drop 1 p, s', star)
               else if take 1 p = ''*'' then
                 (if drop 1 p = [] then Inl True else Inr (drop 1 p, s, drop 1 p, s, True))
               else if take 1 p = [sc] then Inr (pat, str, drop 1 p, s', star)
               else if \<not> star then Inl False
               else Inr (pat, drop 1 str, pat, drop 1 str, star)))"

function wc_loop :: "wc_state \<Rightarrow> bool" where
  "wc_loop st = (case wc_step st of Inl r \<Rightarrow> r | Inr st' \<Rightarrow> wc_loop st')"
  by pat_completeness auto
termination
  by (relation "inv_image (less_than <*lex*> less_than)
        (\<lambda>(pat, str, p, s, star).
           (if star then max (length str) (length s) else length s + 1, length p + length s))")
     (auto simp: wc_step_def split: list.splits if_splits)

declare wc_loop.simps [simp del]

definition match_wildcard :: "string \<Rightarrow> string \<Rightarrow> bool" where
  "match_wildcard pat str = wc_loop (pat, str, pat, str, False)"

text \<open>The same loop with a bound on the number of steps: \<open>None\<close> when the bound is reached.\<close>

fun wc_run :: "nat \<Rightarrow> wc_state \<Rightarrow> bool option" where
  "wc_run 0 st = None"
| "wc_run (Suc n) st = (case wc_step st of Inl r \<Rightarrow> Some r | Inr st' \<Rightarrow> wc_run n st')"

text \<open>
  What the documentation of \<^verbatim>\<open>match_wildcard\<close> asks for, written from its words:
  \<^verbatim>\<open>*\<close> matches zero or more characters, \<^verbatim>\<open>?\<close> matches one character, any other
  character matches itself, and the whole string is matched by the whole pattern.
\<close>

fun glob_matches :: "string \<Rightarrow> string \<Rightarrow> bool" where
  "glob_matches [] s = (s = [])"
| "glob_matches (c # p) [] = (c = CHR ''*'' \<and> glob_matches p [])"
| "glob_matches (c # p) (x # s) =
     (if c = CHR ''*'' then glob_matches p (x # s) \<or> glob_matches (c # p) s
      else (c = CHR ''?'' \<or> c = x) \<and> glob_matches p s)"

subsection \<open>match\_strlcpy and match\_strdup\<close>

text \<open>
  The destination is the content of the caller's buffer, a list of at least \<open>sz\<close>
  bytes (\<open>sz\<close> is the parameter \<^verbatim>\<open>size\<close>); the result is the return value and the
  buffer after the call. \<open>buf\<close> is the buffer the substring points into.
\<close>

definition NUL :: char where "NUL = CHR 0x00"

definition match_strlcpy :: "string \<Rightarrow> string \<Rightarrow> substring_t \<Rightarrow> nat \<Rightarrow> nat \<times> string" where
  "match_strlcpy dest buf src sz =
     (let ret = sub_to src - sub_from src
      in if sz \<noteq> 0 then
           (let len = (if ret \<ge> sz then sz - 1 else ret);
                dest1 = take len (drop (sub_from src) buf) @ drop len dest
            in (ret, dest1[len := NUL]))
         else (ret, dest))"

text \<open>
  \<^verbatim>\<open>match_strdup(s)\<close>: \<open>blk\<close> is what \<^verbatim>\<open>malloc(sz)\<close> returns, \<open>None\<close> for the null
  pointer, otherwise the fresh block of \<open>sz\<close> bytes with whatever content it has. The
  result is the returned pointer: \<open>None\<close>, or the content of the block.
\<close>

definition match_strdup :: "string option \<Rightarrow> string \<Rightarrow> substring_t \<Rightarrow> string option" where
  "match_strdup blk buf s =
     (let sz = sub_to s - sub_from s + 1
      in case blk of
           None \<Rightarrow> None
         | Some p \<Rightarrow> Some (snd (match_strlcpy p buf s sz)))"

section \<open>Numeric extraction\<close>

lemmas strto_defs =
  strtol_def strtoul_def strto_scan_def isspace_def isdigit_def sign_len_def is_minus_def
  has_hex_prefix_def digit_of_def
  INT_MAX_def INT_MIN_def LONG_MAX_def LONG_MIN_def ULONG_MAX_def to_int_def to_size_t_def

lemma to_int_id: "- 2147483648 \<le> v \<Longrightarrow> v \<le> 2147483647 \<Longrightarrow> to_int v = v"
  by (simp add: to_int_def)

lemma match_number_cases:
  assumes "strtol b (substring buf s) = (v, n)"
  shows "match_number alloc buf s r b =
           (if \<not> alloc then (- ENOMEM, r)
            else if n = 0 then (- EINVAL, r)
            else if v < INT_MIN \<or> INT_MAX < v then (- ERANGE, r)
            else (0, v))"
  using assms by (auto simp: match_number_def INT_MIN_def INT_MAX_def to_int_id)

text \<open>
  C4. With \<open>(v, n)\<close> the value and the number of characters that \<^verbatim>\<open>strtol\<close> reads from
  the text of the substring in the given base: \<^verbatim>\<open>match_number\<close> returns 0 and stores
  \<open>v\<close> exactly when the allocation succeeds, \<open>n\<close> is at least one and \<open>v\<close> lies in
  \<open>[INT_MIN, INT_MAX]\<close>; it returns \<^verbatim>\<open>-EINVAL\<close> exactly when (the allocation succeeds
  and) nothing is consumed, \<^verbatim>\<open>-ERANGE\<close> exactly when something is consumed and \<open>v\<close> is
  outside that range, and \<^verbatim>\<open>-ENOMEM\<close> exactly when the allocation fails. \<^verbatim>\<open>match_int\<close>,
  \<^verbatim>\<open>match_octal\<close> and \<^verbatim>\<open>match_hex\<close> are \<^verbatim>\<open>match_number\<close> in base 0, 8 and 16.
\<close>

theorem match_number_outcome:
  "(case strtol b (substring buf s) of
      (v, n) \<Rightarrow>
        (match_number alloc buf s r b = (0, v))
          = (alloc \<and> 0 < n \<and> INT_MIN \<le> v \<and> v \<le> INT_MAX)
        \<and> (fst (match_number alloc buf s r b) = 0)
          = (alloc \<and> 0 < n \<and> INT_MIN \<le> v \<and> v \<le> INT_MAX)
        \<and> (fst (match_number alloc buf s r b) = - EINVAL) = (alloc \<and> n = 0)
        \<and> (fst (match_number alloc buf s r b) = - ERANGE)
          = (alloc \<and> 0 < n \<and> (v < INT_MIN \<or> INT_MAX < v))
        \<and> (fst (match_number alloc buf s r b) = - ENOMEM) = (\<not> alloc))
   \<and> match_int alloc buf s r = match_number alloc buf s r 0
   \<and> match_octal alloc buf s r = match_number alloc buf s r 8
   \<and> match_hex alloc buf s r = match_number alloc buf s r 16"
proof -
  obtain v n where vn: "strtol b (substring buf s) = (v, n)"
    by (cases "strtol b (substring buf s)")
  note c = match_number_cases [OF vn, of alloc r]
  have "(match_number alloc buf s r b = (0, v))
          = (alloc \<and> 0 < n \<and> INT_MIN \<le> v \<and> v \<le> INT_MAX)"
    unfolding c by (auto simp: ENOMEM_def EINVAL_def ERANGE_def)
  moreover have "(fst (match_number alloc buf s r b) = 0)
          = (alloc \<and> 0 < n \<and> INT_MIN \<le> v \<and> v \<le> INT_MAX)"
    unfolding c by (auto simp: ENOMEM_def EINVAL_def ERANGE_def)
  moreover have "(fst (match_number alloc buf s r b) = - EINVAL) = (alloc \<and> n = 0)"
    unfolding c by (auto simp: ENOMEM_def EINVAL_def ERANGE_def)
  moreover have "(fst (match_number alloc buf s r b) = - ERANGE)
          = (alloc \<and> 0 < n \<and> (v < INT_MIN \<or> INT_MAX < v))"
    unfolding c by (auto simp: ENOMEM_def EINVAL_def ERANGE_def)
  moreover have "(fst (match_number alloc buf s r b) = - ENOMEM) = (\<not> alloc)"
    unfolding c by (auto simp: ENOMEM_def EINVAL_def ERANGE_def)
  ultimately show ?thesis
    by (simp add: vn match_int_def match_octal_def match_hex_def)
qed

text \<open>
  The values at the edges of the range, through \<^verbatim>\<open>match_int\<close>: \<open>INT_MAX\<close> and
  \<open>INT_MIN\<close> are stored, one past either is \<^verbatim>\<open>-ERANGE\<close>, and a text with no digit is
  \<^verbatim>\<open>-EINVAL\<close>.
\<close>

lemma strtol_int_max: "strtol 0 ''2147483647'' = (2147483647, 10)"
  by (simp add: strto_defs)

lemma strtol_int_max_1: "strtol 0 ''2147483648'' = (2147483648, 10)"
  by (simp add: strto_defs)

lemma strtol_int_min: "strtol 0 ''-2147483648'' = (- 2147483648, 11)"
  by (simp add: strto_defs)

lemma strtol_int_min_1: "strtol 0 ''-2147483649'' = (- 2147483649, 11)"
  by (simp add: strto_defs)

lemma strtol_no_digit: "strtol 0 ''bar'' = (0, 0)"
  by (simp add: strto_defs)

theorem match_number_outcome_witness:
  "match_int True ''2147483647'' \<lparr>sub_from = 0, sub_to = 10\<rparr> 7 = (0, 2147483647)
   \<and> fst (match_int True ''2147483648'' \<lparr>sub_from = 0, sub_to = 10\<rparr> 7) = - ERANGE
   \<and> match_int True ''-2147483648'' \<lparr>sub_from = 0, sub_to = 11\<rparr> 7 = (0, - 2147483648)
   \<and> fst (match_int True ''-2147483649'' \<lparr>sub_from = 0, sub_to = 11\<rparr> 7) = - ERANGE
   \<and> fst (match_int True ''foo=bar'' \<lparr>sub_from = 4, sub_to = 7\<rparr> 7) = - EINVAL
   \<and> fst (match_int False ''12'' \<lparr>sub_from = 0, sub_to = 2\<rparr> 7) = - ENOMEM"
proof -
  have 1: "match_int True ''2147483647'' \<lparr>sub_from = 0, sub_to = 10\<rparr> 7 = (0, 2147483647)"
    using match_number_outcome [where b = 0 and buf = "''2147483647''" and s = "\<lparr>sub_from = 0, sub_to = 10\<rparr>"
        and alloc = True and r = 7]
    by (simp add: substring_def strtol_int_max INT_MIN_def INT_MAX_def)
  have 2: "fst (match_int True ''2147483648'' \<lparr>sub_from = 0, sub_to = 10\<rparr> 7) = - ERANGE"
    using match_number_outcome [where b = 0 and buf = "''2147483648''" and s = "\<lparr>sub_from = 0, sub_to = 10\<rparr>"
        and alloc = True and r = 7]
    by (simp add: substring_def strtol_int_max_1 INT_MIN_def INT_MAX_def)
  have 3: "match_int True ''-2147483648'' \<lparr>sub_from = 0, sub_to = 11\<rparr> 7 = (0, - 2147483648)"
    using match_number_outcome [where b = 0 and buf = "''-2147483648''" and s = "\<lparr>sub_from = 0, sub_to = 11\<rparr>"
        and alloc = True and r = 7]
    by (simp add: substring_def strtol_int_min INT_MIN_def INT_MAX_def)
  have 4: "fst (match_int True ''-2147483649'' \<lparr>sub_from = 0, sub_to = 11\<rparr> 7) = - ERANGE"
    using match_number_outcome [where b = 0 and buf = "''-2147483649''" and s = "\<lparr>sub_from = 0, sub_to = 11\<rparr>"
        and alloc = True and r = 7]
    by (simp add: substring_def strtol_int_min_1 INT_MIN_def INT_MAX_def)
  have 5: "fst (match_int True ''foo=bar'' \<lparr>sub_from = 4, sub_to = 7\<rparr> 7) = - EINVAL"
    using match_number_outcome [where b = 0 and buf = "''foo=bar''" and s = "\<lparr>sub_from = 4, sub_to = 7\<rparr>"
        and alloc = True and r = 7]
    by (simp add: substring_def strtol_no_digit)
  have 6: "fst (match_int False ''12'' \<lparr>sub_from = 0, sub_to = 2\<rparr> 7) = - ENOMEM"
    using match_number_outcome [where b = 0 and buf = "''12''" and s = "\<lparr>sub_from = 0, sub_to = 2\<rparr>"
        and alloc = False and r = 7]
    by (simp split: prod.splits)
  from 1 2 3 4 5 6 show ?thesis by simp
qed

text \<open>
  C10. When \<^verbatim>\<open>match_number\<close> (or \<^verbatim>\<open>match_int\<close>, \<^verbatim>\<open>match_octal\<close>, \<^verbatim>\<open>match_hex\<close>)
  returns a nonzero value, that value is \<^verbatim>\<open>-ENOMEM\<close>, \<^verbatim>\<open>-EINVAL\<close> or \<^verbatim>\<open>-ERANGE\<close> and
  \<^verbatim>\<open>*result\<close> holds what it held before the call.
\<close>

theorem match_number_error_keeps_result:
  "(fst (match_number alloc buf s r b) \<noteq> 0 \<longrightarrow>
      snd (match_number alloc buf s r b) = r
      \<and> fst (match_number alloc buf s r b) \<in> {- ENOMEM, - EINVAL, - ERANGE})
   \<and> (fst (match_int alloc buf s r) \<noteq> 0 \<longrightarrow> snd (match_int alloc buf s r) = r)
   \<and> (fst (match_octal alloc buf s r) \<noteq> 0 \<longrightarrow> snd (match_octal alloc buf s r) = r)
   \<and> (fst (match_hex alloc buf s r) \<noteq> 0 \<longrightarrow> snd (match_hex alloc buf s r) = r)"
proof -
  have "snd (match_number alloc buf s r b) = r
      \<and> fst (match_number alloc buf s r b) \<in> {- ENOMEM, - EINVAL, - ERANGE}"
    if "fst (match_number alloc buf s r b) \<noteq> 0" for b
    using that by (auto simp: match_number_def split: prod.splits if_splits)
  then show ?thesis
    unfolding match_int_def match_octal_def match_hex_def by blast
qed

theorem match_number_error_keeps_result_witness:
  "fst (match_number True ''2147483648'' \<lparr>sub_from = 0, sub_to = 10\<rparr> 7 0) \<noteq> 0
   \<and> snd (match_number True ''2147483648'' \<lparr>sub_from = 0, sub_to = 10\<rparr> 7 0) = 7"
proof -
  have h: "fst (match_number True ''2147483648'' \<lparr>sub_from = 0, sub_to = 10\<rparr> 7 0) \<noteq> 0"
    by (simp add: match_number_def substring_def strtol_int_max_1 INT_MIN_def INT_MAX_def
        ERANGE_def)
  from match_number_error_keeps_result [where alloc = True and buf = "''2147483648''"
      and s = "\<lparr>sub_from = 0, sub_to = 10\<rparr>" and r = 7 and b = 0] h
  show ?thesis by blast
qed

section \<open>String materialization\<close>

lemma match_strlcpy_eq:
  assumes "sub_from src \<le> sub_to src" "sub_to src \<le> length buf" "sz \<le> length dest"
  shows "match_strlcpy dest buf src sz =
           (sub_to src - sub_from src,
            if sz = 0 then dest
            else take (min (sub_to src - sub_from src) (sz - 1)) (substring buf src)
                 @ NUL # drop (Suc (min (sub_to src - sub_from src) (sz - 1))) dest)
         \<and> length (take (min (sub_to src - sub_from src) (sz - 1)) (substring buf src))
            = min (sub_to src - sub_from src) (sz - 1)"
proof (cases "sz = 0")
  case True
  then show ?thesis using assms by (simp add: match_strlcpy_def substring_def)
next
  case False
  define ret where "ret = sub_to src - sub_from src"
  define n where "n = min ret (sz - 1)"
  have n_alt: "(if ret \<ge> sz then sz - 1 else ret) = n" using False by (auto simp: n_def)
  have l1: "length (take n (drop (sub_from src) buf)) = n"
    using assms by (simp add: n_def ret_def)
  have l2: "n < length dest" using assms False by (simp add: n_def)
  have t: "take n (substring buf src) = take n (drop (sub_from src) buf)"
    by (simp add: substring_def n_def ret_def min_def)
  have "(take n (drop (sub_from src) buf) @ drop n dest)[n := NUL]
        = take n (drop (sub_from src) buf) @ NUL # drop (Suc n) dest"
  proof -
    have "drop n dest = dest ! n # drop (Suc n) dest"
      using l2 by (simp add: Cons_nth_drop_Suc)
    then show ?thesis using l1 by (simp add: list_update_append)
  qed
  then show ?thesis
    using False l1 t n_alt unfolding match_strlcpy_def ret_def[symmetric] Let_def n_def[symmetric]
    by simp
qed

text \<open>
  C7. For a substring within its buffer (\<open>from \<le> to \<le> length buf\<close>) and a destination
  of at least \<open>sz\<close> bytes: \<^verbatim>\<open>match_strlcpy\<close> returns the length \<open>to - from\<close> of the
  source, whatever \<open>sz\<close> is; with \<open>sz = 0\<close> the destination is untouched; otherwise the
  destination holds the first \<open>min (to - from) (sz - 1)\<close> bytes of the source, then a
  NUL, then what it held before.
\<close>

theorem match_strlcpy_copy:
  assumes "sub_from src \<le> sub_to src" "sub_to src \<le> length buf" "sz \<le> length dest"
  shows "match_strlcpy dest buf src sz =
           (sub_to src - sub_from src,
            if sz = 0 then dest
            else take (min (sub_to src - sub_from src) (sz - 1)) (substring buf src)
                 @ NUL # drop (Suc (min (sub_to src - sub_from src) (sz - 1))) dest)
         \<and> length (take (min (sub_to src - sub_from src) (sz - 1)) (substring buf src))
            = min (sub_to src - sub_from src) (sz - 1)"
  using assms by (rule match_strlcpy_eq)

theorem match_strlcpy_copy_witness:
  "match_strlcpy ''zzzzzz'' ''0123456789'' \<lparr>sub_from = 0, sub_to = 10\<rparr> 4
     = (10, ''012'' @ NUL # ''zz'')
   \<and> match_strlcpy ''zzzz'' ''0123456789'' \<lparr>sub_from = 0, sub_to = 10\<rparr> 4
     = (10, ''012'' @ [NUL])"
proof -
  have 1: "match_strlcpy ''zzzzzz'' ''0123456789'' \<lparr>sub_from = 0, sub_to = 10\<rparr> 4
             = (10, ''012'' @ NUL # ''zz'')"
    using match_strlcpy_copy [where src = "\<lparr>sub_from = 0, sub_to = 10\<rparr>"
        and buf = "''0123456789''" and sz = 4 and dest = "''zzzzzz''"]
    by (simp add: substring_def)
  have 2: "match_strlcpy ''zzzz'' ''0123456789'' \<lparr>sub_from = 0, sub_to = 10\<rparr> 4
             = (10, ''012'' @ [NUL])"
    using match_strlcpy_copy [where src = "\<lparr>sub_from = 0, sub_to = 10\<rparr>"
        and buf = "''0123456789''" and sz = 4 and dest = "''zzzz''"]
    by (simp add: substring_def)
  from 1 2 show ?thesis by simp
qed

section \<open>The pattern matcher\<close>

subsection \<open>Field widths\<close>

text \<open>
  \<open>decimal ds\<close> is the number that the digits \<open>ds\<close> denote. \<open>field_width ds\<close> is the
  value of \<^verbatim>\<open>len\<close> after lines 37 to 49 when \<open>ds\<close> are the digits that follow the
  \<^verbatim>\<open>%\<close>: \<open>- 1\<close> with no digit, otherwise the result of \<^verbatim>\<open>strtoul\<close> converted to
  \<^verbatim>\<open>int\<close>.
\<close>

definition decimal :: "string \<Rightarrow> int" where
  "decimal ds = foldl (\<lambda>a c. a * 10 + int (digit_of c)) 0 ds"

definition field_width :: "string \<Rightarrow> int" where
  "field_width ds = (if ds = [] then - 1 else to_int (fst (strtoul 10 ds)))"

lemma to_int_range: "- (2 ^ 31) \<le> to_int v \<and> to_int v < 2 ^ 31"
proof -
  have "0 \<le> (v + 2147483648) mod 4294967296" "(v + 2147483648) mod 4294967296 < 4294967296"
    by simp_all
  then show ?thesis by (simp add: to_int_def)
qed

lemma to_size_t_neg: "- (2 ^ 31) \<le> v \<Longrightarrow> v < 0 \<Longrightarrow> to_size_t v = v + 2 ^ 64"
  unfolding to_size_t_def by (rule int_mod_pos_eq[where q = "-1"], simp_all)

lemma to_size_t_pos: "0 \<le> v \<Longrightarrow> v < 2 ^ 31 \<Longrightarrow> to_size_t v = v"
  by (simp add: to_size_t_def)

lemma isdigit_props:
  assumes "isdigit c"
  shows "digit_of c < 10" "\<not> isspace c" "c \<noteq> CHR ''-''" "c \<noteq> CHR ''+''" "c \<noteq> CHR ''%''"
  using assms by (auto simp: isdigit_def digit_of_def isspace_def)

lemma takeWhile_digits:
  assumes "\<forall>c\<in>set ds. isdigit c" "r = [] \<or> \<not> digit_of (hd r) < 10"
  shows "takeWhile (\<lambda>c. digit_of c < 10) (ds @ r) = ds"
proof -
  have "takeWhile (\<lambda>c. digit_of c < 10) r = []" using assms(2) by (cases r) auto
  moreover have "\<forall>c\<in>set ds. digit_of c < 10" using assms(1) isdigit_props(1) by blast
  ultimately show ?thesis by (simp add: takeWhile_append2)
qed

lemma strto_scan_digits:
  assumes "ds \<noteq> []" "\<forall>c\<in>set ds. isdigit c" "r = [] \<or> \<not> digit_of (hd r) < 10"
  shows "strto_scan 10 (ds @ r) = (False, decimal ds, length ds)"
proof -
  obtain d ds' where ds: "ds = d # ds'" using assms(1) by (cases ds) auto
  have d: "isdigit d" using assms(2) ds by simp
  note p = isdigit_props [OF d]
  have tw: "takeWhile (\<lambda>c. digit_of c < 10) (ds @ r) = ds"
    by (rule takeWhile_digits [OF assms(2,3)])
  have "takeWhile isspace (ds @ r) = []" "dropWhile isspace (ds @ r) = ds @ r"
    using p by (simp_all add: ds)
  moreover have "sign_len (ds @ r) = 0" "\<not> is_minus (ds @ r)"
    using p by (simp_all add: ds sign_len_def is_minus_def)
  ultimately show ?thesis
    using tw assms(1) by (simp add: strto_scan_def Let_def decimal_def)
qed

lemma strtoul_digits:
  assumes "ds \<noteq> []" "\<forall>c\<in>set ds. isdigit c" "r = [] \<or> \<not> digit_of (hd r) < 10"
  shows "strtoul 10 (ds @ r) = (min ULONG_MAX (decimal ds), length ds)"
  by (simp add: strtoul_def strto_scan_digits [OF assms] min_def)

lemma decimal_nonneg: "0 \<le> decimal ds"
proof -
  have "0 \<le> a \<Longrightarrow> 0 \<le> foldl (\<lambda>a c. a * 10 + int (digit_of c)) a ds" for a
    by (induction ds arbitrary: a) auto
  then show ?thesis by (simp add: decimal_def)
qed

lemma field_width_decimal:
  assumes "ds \<noteq> []" "\<forall>c\<in>set ds. isdigit c" "decimal ds < 2 ^ 31"
  shows "field_width ds = decimal ds"
proof -
  have "strtoul 10 (ds @ []) = (min ULONG_MAX (decimal ds), length ds)"
    by (rule strtoul_digits [OF assms(1,2)]) simp
  moreover have "min ULONG_MAX (decimal ds) = decimal ds"
    using assms(3) by (simp add: ULONG_MAX_def)
  ultimately show ?thesis
    using assms(1,3) decimal_nonneg [of ds] by (simp add: field_width_def to_int_id)
qed

lemma field_width_suffix:
  assumes "\<forall>c\<in>set ds. isdigit c" "ds \<noteq> []" "r = [] \<or> \<not> digit_of (hd r) < 10"
  shows "to_int (fst (strtoul 10 (ds @ r))) = field_width ds"
proof -
  have "strtoul 10 (ds @ []) = (min ULONG_MAX (decimal ds), length ds)"
    by (rule strtoul_digits [OF assms(2,1)]) simp
  then show ?thesis
    using strtoul_digits [OF assms(2,1,3)] assms(2) by (simp add: field_width_def)
qed

lemma field_width_range: "- (2 ^ 31) \<le> field_width ds \<and> field_width ds < 2 ^ 31"
  using to_int_range [of "fst (strtoul 10 ds)"] by (simp add: field_width_def)

subsection \<open>One iteration at a placeholder\<close>

lemma match_step_placeholder:
  assumes "CHR ''%'' \<notin> set lit" "\<forall>c\<in>set ds. isdigit c" "q = [] \<or> (\<not> isdigit (hd q) \<and> hd q \<noteq> CHR ''%'')"
   "ds \<noteq> [] \<longrightarrow> q = [] \<or> \<not> digit_of (hd q) < 10"
  shows "match_step mx subj (s, lit @ CHR ''%'' # ds @ q, args, argc) =
    (if take (length lit) (drop s subj) \<noteq> lit then Inl (False, args, argc)
     else take_arg mx subj (s + length lit) (field_width ds) q args argc)"
proof -
  let ?p = "lit @ CHR ''%'' # ds @ q"
  have "\<forall>x\<in>set lit. x \<noteq> CHR ''%''" using assms(1) by auto
  then have n: "length (takeWhile (\<lambda>c. c \<noteq> CHR ''%'') ?p) = length lit"
    by (simp add: takeWhile_append2)
  have d: "drop (length lit) ?p = CHR ''%'' # ds @ q" by simp
  have t: "take (length lit) ?p = lit" by simp
  show ?thesis
  proof (cases ds)
    case Nil
    then show ?thesis
      using assms(3)
      unfolding match_step_def prod.case Let_def n d t
      by (cases q) (auto simp: field_width_def)
  next
    case (Cons c cs)
    then have c: "isdigit c" "ds \<noteq> []" using assms(2) by simp_all
    have r: "q = [] \<or> \<not> digit_of (hd q) < 10" using assms(4) c by simp
    have st: "strtoul 10 (ds @ q) = (min ULONG_MAX (decimal ds), length ds)"
      by (rule strtoul_digits [OF c(2) assms(2) r])
    have fw: "to_int (min ULONG_MAX (decimal ds)) = field_width ds"
      using field_width_suffix [OF assms(2) c(2) r] st by simp
    show ?thesis
      unfolding match_step_def prod.case Let_def n d t
      using c st fw by (simp add: Cons [symmetric]) (simp add: Cons)
  qed
qed

lemma take_arg_s:
  assumes "argc < mx" "length subj < 2 ^ 31" "- (2 ^ 31) \<le> len" "len < 2 ^ 31"
  shows "take_arg mx subj s len (CHR ''s'' # p') args argc =
     (let rem = length (drop s subj)
      in if rem = 0 then Inl (False, args(argc := (args argc)\<lparr>sub_from := s\<rparr>), argc)
         else let n = (if len < 0 then rem else min rem (nat len))
              in Inr (s + n, p', args(argc := \<lparr>sub_from = s, sub_to = s + n\<rparr>), argc + 1))"
proof (cases "length (drop s subj) = 0")
  case True
  with assms show ?thesis by (simp add: take_arg_def)
next
  case False
  define rem where "rem = length (drop s subj)"
  have r: "int rem < 2 ^ 31" "rem \<noteq> 0" using assms(2) False by (simp_all add: rem_def)
  have ti: "to_int (int rem) = int rem" using r by (simp add: to_int_id)
  have e1: "nat (int s + int rem) = s + rem" by (simp add: nat_int_add)
  show ?thesis
  proof (cases "len < 0")
    case True
    have "to_size_t len > int rem" using to_size_t_neg [OF assms(3) True] r assms(3) by simp
    with r True assms(1) ti e1 show ?thesis
      unfolding take_arg_def rem_def [symmetric] by (simp add: Let_def)
  next
    case nn: False
    have ts: "to_size_t len = len" using nn assms(4) by (simp add: to_size_t_pos)
    have e2: "nat (int s + len) = s + nat len" using nn by (simp add: nat_add_distrib)
    show ?thesis
    proof (cases "len > int rem")
      case True
      then have "min rem (nat len) = rem" by simp
      with r nn True assms(1) ti ts e1 show ?thesis
        unfolding take_arg_def rem_def [symmetric] by (simp add: Let_def)
    next
      case False
      then have "min rem (nat len) = nat len" using nn by simp
      with r nn False assms(1) ti ts e2 show ?thesis
        unfolding take_arg_def rem_def [symmetric] by (simp add: Let_def)
    qed
  qed
qed

lemma match_step_percent_s:
  assumes "argc < mx" "length subj < 2 ^ 31" "\<forall>c\<in>set ds. isdigit c" "CHR ''%'' \<notin> set lit"
    "take (length lit) (drop s subj) = lit"
  shows "match_step mx subj (s, lit @ CHR ''%'' # ds @ CHR ''s'' # p', args, argc) =
     (let cur = s + length lit; rem = length (drop cur subj); w = field_width ds
      in if rem = 0 then Inl (False, args(argc := (args argc)\<lparr>sub_from := cur\<rparr>), argc)
         else let n = (if w < 0 then rem else min rem (nat w))
              in Inr (cur + n, p', args(argc := \<lparr>sub_from = cur, sub_to = cur + n\<rparr>), argc + 1))"
proof -
  have q: "CHR ''s'' # p' = [] \<or> (\<not> isdigit (hd (CHR ''s'' # p')) \<and> hd (CHR ''s'' # p') \<noteq> CHR ''%'')"
    by (simp add: isdigit_def)
  have q10: "ds \<noteq> [] \<longrightarrow> CHR ''s'' # p' = [] \<or> \<not> digit_of (hd (CHR ''s'' # p')) < 10"
    by (simp add: digit_of_def)
  note fr = field_width_range [of ds]
  show ?thesis
    unfolding match_step_placeholder [OF assms(4,3) q q10]
    using assms(5) take_arg_s [OF assms(1,2) conjunct1 [OF fr] conjunct2 [OF fr]]
    by (simp add: Let_def)
qed

lemma field_width_2: "field_width ''2'' = 2"
  by (simp add: field_width_def strto_defs)

lemma field_width_9: "field_width ''9'' = 9"
  by (simp add: field_width_def strto_defs)

text \<open>
  A width of \<open>2 ^ 31\<close> or more does not fit \<^verbatim>\<open>int len\<close>: the conversion keeps the low
  32 bits, and a negative \<^verbatim>\<open>len\<close> is compared as a \<^verbatim>\<open>size_t\<close>, so it acts as no width.
\<close>

lemma field_width_wraps: "field_width ''4294967297'' = 1 \<and> field_width ''4294967294'' = - 2"
  by (simp add: field_width_def strto_defs)

text \<open>
  C3. One iteration of \<^verbatim>\<open>match_one\<close> at a \<^verbatim>\<open>%s\<close> placeholder, with room in the array
  (\<open>argc < mx\<close>), a subject shorter than \<open>2 ^ 31\<close> bytes, the literal text \<open>lit\<close> before
  the \<^verbatim>\<open>%\<close> found at the cursor, and \<open>w\<close> the width that the digits \<open>ds\<close> after the
  \<^verbatim>\<open>%\<close> give to \<^verbatim>\<open>len\<close> (\<open>- 1\<close> with no digit, the decimal number itself below
  \<open>2 ^ 31\<close>). The iteration returns 0 exactly when nothing of the subject remains at
  the cursor. Otherwise it goes on, and \<^verbatim>\<open>args[argc]\<close> is the span that starts at the
  cursor and has the length \<open>min rem w\<close>, or the whole rest \<open>rem\<close> of the subject when
  there is no width: a width larger than the rest is clamped and never fails.
\<close>

theorem percent_s_placeholder:
  assumes "argc < mx" "length subj < 2 ^ 31" "\<forall>c\<in>set ds. isdigit c" "CHR ''%'' \<notin> set lit"
    "take (length lit) (drop s subj) = lit"
  shows "match_step mx subj (s, lit @ CHR ''%'' # ds @ CHR ''s'' # p', args, argc) =
     (let cur = s + length lit; rem = length (drop cur subj); w = field_width ds
      in if rem = 0 then Inl (False, args(argc := (args argc)\<lparr>sub_from := cur\<rparr>), argc)
         else let n = (if w < 0 then rem else min rem (nat w))
              in Inr (cur + n, p', args(argc := \<lparr>sub_from = cur, sub_to = cur + n\<rparr>), argc + 1))
     \<and> field_width [] = - 1
     \<and> (ds \<noteq> [] \<and> decimal ds < 2 ^ 31 \<longrightarrow> field_width ds = decimal ds)"
  using match_step_percent_s [OF assms] field_width_decimal [OF _ assms(3)]
  by (simp add: field_width_def)

theorem percent_s_placeholder_witness:
  "match_step 3 ''foo=bar'' (0, ''foo=%2s'', (\<lambda>_. \<lparr>sub_from = 0, sub_to = 0\<rparr>), 0)
     = Inr (6, [], (\<lambda>_. \<lparr>sub_from = 0, sub_to = 0\<rparr>)(0 := \<lparr>sub_from = 4, sub_to = 6\<rparr>), 1)
   \<and> match_step 3 ''foo=bar'' (0, ''foo=%9s'', (\<lambda>_. \<lparr>sub_from = 0, sub_to = 0\<rparr>), 0)
     = Inr (7, [], (\<lambda>_. \<lparr>sub_from = 0, sub_to = 0\<rparr>)(0 := \<lparr>sub_from = 4, sub_to = 7\<rparr>), 1)
   \<and> match_step 3 ''foo='' (0, ''foo=%2s'', (\<lambda>_. \<lparr>sub_from = 0, sub_to = 0\<rparr>), 0)
     = Inl (False, (\<lambda>_. \<lparr>sub_from = 0, sub_to = 0\<rparr>)(0 := \<lparr>sub_from = 4, sub_to = 0\<rparr>), 0)"
proof -
  have l: "0 + length ''foo='' = 4" by simp
  have d: "\<forall>c\<in>set ''2''. isdigit c" "\<forall>c\<in>set ''9''. isdigit c" by (simp_all add: isdigit_def)
  have 1: "match_step 3 ''foo=bar'' (0, ''foo=%2s'', (\<lambda>_. \<lparr>sub_from = 0, sub_to = 0\<rparr>), 0)
     = Inr (6, [], (\<lambda>_. \<lparr>sub_from = 0, sub_to = 0\<rparr>)(0 := \<lparr>sub_from = 4, sub_to = 6\<rparr>), 1)"
    using percent_s_placeholder [where lit = "''foo=''" and ds = "''2''" and p' = "[]"
        and subj = "''foo=bar''" and s = 0 and args = "\<lambda>_. \<lparr>sub_from = 0, sub_to = 0\<rparr>"
        and argc = 0 and mx = 3, unfolded l] d
    by (simp add: field_width_2 Let_def)
  have 2: "match_step 3 ''foo=bar'' (0, ''foo=%9s'', (\<lambda>_. \<lparr>sub_from = 0, sub_to = 0\<rparr>), 0)
     = Inr (7, [], (\<lambda>_. \<lparr>sub_from = 0, sub_to = 0\<rparr>)(0 := \<lparr>sub_from = 4, sub_to = 7\<rparr>), 1)"
    using percent_s_placeholder [where lit = "''foo=''" and ds = "''9''" and p' = "[]"
        and subj = "''foo=bar''" and s = 0 and args = "\<lambda>_. \<lparr>sub_from = 0, sub_to = 0\<rparr>"
        and argc = 0 and mx = 3, unfolded l] d
    by (simp add: field_width_9 Let_def)
  have 3: "match_step 3 ''foo='' (0, ''foo=%2s'', (\<lambda>_. \<lparr>sub_from = 0, sub_to = 0\<rparr>), 0)
     = Inl (False, (\<lambda>_. \<lparr>sub_from = 0, sub_to = 0\<rparr>)(0 := \<lparr>sub_from = 4, sub_to = 0\<rparr>), 0)"
    using percent_s_placeholder [where lit = "''foo=''" and ds = "''2''" and p' = "[]"
        and subj = "''foo=''" and s = 0 and args = "\<lambda>_. \<lparr>sub_from = 0, sub_to = 0\<rparr>"
        and argc = 0 and mx = 3, unfolded l] d
    by (simp add: field_width_2 Let_def)
  from 1 2 3 show ?thesis by simp
qed

section \<open>From a \<^verbatim>\<open>%s\<close> span to an owned string\<close>

lemma match_strdup_eq:
  assumes "sub_from s \<le> sub_to s" "sub_to s \<le> length buf"
    "length blk = sub_to s - sub_from s + 1"
  shows "match_strdup (Some blk) buf s = Some (substring buf s @ [NUL])"
proof -
  have l: "length (substring buf s) = sub_to s - sub_from s"
    using assms(1,2) by (simp add: substring_def)
  have "sub_to s - sub_from s + 1 \<le> length blk" using assms(3) by simp
  from match_strlcpy_eq [OF assms(1,2) this] l assms(3)
  show ?thesis by (simp add: match_strdup_def)
qed

text \<open>
  C8. With \<open>MAX_OPT_ARGS > 0\<close>, matching \<^verbatim>\<open>"foo=%s"\<close> against \<^verbatim>\<open>"foo=bar"\<close> succeeds and
  stores the span from offset 4 to offset 7 in \<^verbatim>\<open>args[0]\<close>; \<^verbatim>\<open>match_strdup\<close> of that span
  fills the block of 4 bytes that \<^verbatim>\<open>malloc\<close> returns with \<^verbatim>\<open>bar\<close> and a NUL, and
  returns the null pointer when \<^verbatim>\<open>malloc\<close> does. In general, when an iteration of
  \<^verbatim>\<open>match_one\<close> at a \<^verbatim>\<open>%s\<close> placeholder succeeds, the span it stores lies within the
  subject, from the cursor to the new cursor, and \<^verbatim>\<open>match_strdup\<close> of that span returns
  exactly the characters of the subject between the two, followed by a NUL.
\<close>

theorem percent_s_roundtrip:
  "(0 < mx \<longrightarrow>
      match_one mx ''foo=bar'' (Some ''foo=%s'') args
        = (True, args(0 := \<lparr>sub_from = 4, sub_to = 7\<rparr>)))
   \<and> (length blk = 4 \<longrightarrow>
      match_strdup (Some blk) ''foo=bar'' \<lparr>sub_from = 4, sub_to = 7\<rparr> = Some (''bar'' @ [NUL]))
   \<and> match_strdup None buf sp = None
   \<and> (argc < mx \<and> length subj < 2 ^ 31 \<and> (\<forall>c\<in>set ds. isdigit c) \<and> CHR ''%'' \<notin> set lit
        \<and> match_step mx subj (s, lit @ CHR ''%'' # ds @ CHR ''s'' # p', args, argc)
            = Inr (e, q, args', argc')
        \<and> length blk' = sub_to (args' argc) - sub_from (args' argc) + 1
      \<longrightarrow> args' argc = \<lparr>sub_from = s + length lit, sub_to = e\<rparr>
          \<and> s + length lit \<le> e \<and> e \<le> length subj
          \<and> match_strdup (Some blk') subj (args' argc)
              = Some (take (e - (s + length lit)) (drop (s + length lit) subj) @ [NUL]))"
proof -
  have a: "match_one mx ''foo=bar'' (Some ''foo=%s'') args
        = (True, args(0 := \<lparr>sub_from = 4, sub_to = 7\<rparr>))" if mx: "0 < mx"
  proof -
    have 1: "match_step mx ''foo=bar'' (0, ''foo='' @ CHR ''%'' # [] @ CHR ''s'' # [], args, 0)
          = Inr (7, [], args(0 := \<lparr>sub_from = 4, sub_to = 7\<rparr>), 1)"
    proof -
      have l: "0 + length ''foo='' = 4" by simp
      show ?thesis
        using mx match_step_percent_s [where lit = "''foo=''" and ds = "[]" and p' = "[]"
            and subj = "''foo=bar''" and s = 0 and args = args and argc = 0 and mx = mx,
            unfolded l]
        by (simp add: field_width_def Let_def)
    qed
    have 2: "match_step mx ''foo=bar'' (7, [], args(0 := \<lparr>sub_from = 4, sub_to = 7\<rparr>), 1)
          = Inl (True, args(0 := \<lparr>sub_from = 4, sub_to = 7\<rparr>), 1)"
      by (simp add: match_step_def)
    show ?thesis
      using 1 2 by (simp add: match_one_def match_loop.simps)
  qed
  have b: "match_strdup (Some blk) ''foo=bar'' \<lparr>sub_from = 4, sub_to = 7\<rparr> = Some (''bar'' @ [NUL])"
    if "length blk = 4"
    using that match_strdup_eq [of "\<lparr>sub_from = 4, sub_to = 7\<rparr>" "''foo=bar''" blk]
    by (simp add: substring_def)
  have c: "match_strdup None buf sp = None" by (simp add: match_strdup_def)
  have d: "args' argc = \<lparr>sub_from = s + length lit, sub_to = e\<rparr>
          \<and> s + length lit \<le> e \<and> e \<le> length subj
          \<and> match_strdup (Some blk') subj (args' argc)
              = Some (take (e - (s + length lit)) (drop (s + length lit) subj) @ [NUL])"
    if h: "argc < mx" "length subj < 2 ^ 31" "\<forall>c\<in>set ds. isdigit c" "CHR ''%'' \<notin> set lit"
      "match_step mx subj (s, lit @ CHR ''%'' # ds @ CHR ''s'' # p', args, argc)
            = Inr (e, q, args', argc')"
      "length blk' = sub_to (args' argc) - sub_from (args' argc) + 1"
  proof -
    have q: "CHR ''s'' # p' = [] \<or> (\<not> isdigit (hd (CHR ''s'' # p')) \<and> hd (CHR ''s'' # p') \<noteq> CHR ''%'')"
      by (simp add: isdigit_def)
    have q10: "ds \<noteq> [] \<longrightarrow> CHR ''s'' # p' = [] \<or> \<not> digit_of (hd (CHR ''s'' # p')) < 10"
      by (simp add: digit_of_def)
    have lit: "take (length lit) (drop s subj) = lit"
      using h(5) unfolding match_step_placeholder [OF h(4,3) q q10] by (simp split: if_splits)
    define cur where "cur = s + length lit"
    define rem where "rem = length (drop cur subj)"
    define n where "n = (if field_width ds < 0 then rem else min rem (nat (field_width ds)))"
    have st: "match_step mx subj (s, lit @ CHR ''%'' # ds @ CHR ''s'' # p', args, argc) =
        (if rem = 0 then Inl (False, args(argc := (args argc)\<lparr>sub_from := cur\<rparr>), argc)
         else Inr (cur + n, p', args(argc := \<lparr>sub_from = cur, sub_to = cur + n\<rparr>), argc + 1))"
      unfolding match_step_percent_s [OF h(1,2,3,4) lit]
      by (simp add: Let_def cur_def rem_def n_def)
    have r0: "rem \<noteq> 0" using h(5) st by (auto split: if_splits)
    have st': "match_step mx subj (s, lit @ CHR ''%'' # ds @ CHR ''s'' # p', args, argc) =
        Inr (cur + n, p', args(argc := \<lparr>sub_from = cur, sub_to = cur + n\<rparr>), argc + 1)"
      using st r0 by simp
    have e: "e = cur + n" and a': "args' = args(argc := \<lparr>sub_from = cur, sub_to = cur + n\<rparr>)"
      using h(5) [unfolded st'] by auto
    have nr: "n \<le> rem" by (simp add: n_def)
    have cl: "cur + rem = length subj" using r0 by (simp add: rem_def)
    have sp: "args' argc = \<lparr>sub_from = cur, sub_to = e\<rparr>" by (simp add: a' e)
    have "match_strdup (Some blk') subj (args' argc) = Some (substring subj (args' argc) @ [NUL])"
      using nr cl h(6) by (intro match_strdup_eq) (simp_all add: sp e)
    then show ?thesis
      using nr cl unfolding sp by (simp add: substring_def e cur_def)
  qed
  from a b c d show ?thesis by blast
qed

theorem percent_s_roundtrip_witness:
  "match_one 3 ''foo=bar'' (Some ''foo=%s'') (\<lambda>_. \<lparr>sub_from = 0, sub_to = 0\<rparr>)
     = (True, (\<lambda>_. \<lparr>sub_from = 0, sub_to = 0\<rparr>)(0 := \<lparr>sub_from = 4, sub_to = 7\<rparr>))
   \<and> match_strdup (Some ''zzzz'') ''foo=bar'' \<lparr>sub_from = 4, sub_to = 7\<rparr> = Some (''bar'' @ [NUL])
   \<and> match_strdup (Some ''zzz'') ''key=xy,z'' \<lparr>sub_from = 4, sub_to = 6\<rparr> = Some (''xy'' @ [NUL])"
proof -
  let ?a = "\<lambda>_::nat. \<lparr>sub_from = 0, sub_to = 0\<rparr>"
  note r = percent_s_roundtrip [where mx = 3 and args = ?a and blk = "''zzzz''"
      and argc = 0 and subj = "''key=xy,z''" and ds = "''2''" and lit = "''key=''" and s = 0
      and p' = "'',z''" and e = 6 and q = "'',z''"
      and args' = "?a(0 := \<lparr>sub_from = 4, sub_to = 6\<rparr>)" and argc' = 1 and blk' = "''zzz''"]
  have st: "match_step 3 ''key=xy,z'' (0, ''key='' @ CHR ''%'' # ''2'' @ CHR ''s'' # '',z'', ?a, 0)
      = Inr (6, '',z'', ?a(0 := \<lparr>sub_from = 4, sub_to = 6\<rparr>), 1)"
  proof -
    have n4: "Suc (Suc (Suc (Suc 0))) = 4" by simp
    show ?thesis by (simp add: match_step_def take_arg_def Let_def strto_defs n4)
  qed
  have d: "\<forall>c\<in>set ''2''. isdigit c" by (simp add: isdigit_def)
  from r st d show ?thesis by simp
qed

section \<open>The capacity of the array\<close>

text \<open>
  What one iteration, and then the whole loop, may change: only the cell \<^verbatim>\<open>args[argc]\<close>,
  and only while \<open>argc < mx\<close>; \<^verbatim>\<open>argc\<close> never decreases and never passes \<open>mx\<close>.
\<close>

lemma take_arg_frame:
  assumes "take_arg mx subj s len p args argc = res"
  shows "case res of
           Inl (r, args', argc') \<Rightarrow>
             \<not> r \<and> argc' = argc \<and> (\<forall>i. i \<noteq> argc \<or> mx \<le> i \<longrightarrow> args' i = args i)
         | Inr (s', p', args', argc') \<Rightarrow>
             argc < mx \<and> argc' = argc + 1 \<and> (\<forall>i. i \<noteq> argc \<longrightarrow> args' i = args i)"
  using assms
  by (auto simp: take_arg_def num_arg_def Let_def split: if_splits list.splits)

lemma match_step_frame:
  assumes "match_step mx subj (s, p, args, argc) = res"
  shows "case res of
           Inl (r, args', argc') \<Rightarrow>
             argc' = argc \<and> (r \<longrightarrow> args' = args)
               \<and> (\<forall>i. i \<noteq> argc \<or> mx \<le> i \<longrightarrow> args' i = args i)
         | Inr (s', p', args', argc') \<Rightarrow>
             (args' = args \<and> argc' = argc)
             \<or> (argc < mx \<and> argc' = argc + 1 \<and> (\<forall>i. i \<noteq> argc \<longrightarrow> args' i = args i))"
proof -
  have ta: "\<And>s len p. case take_arg mx subj s len p args argc of
           Inl (r, args', argc') \<Rightarrow>
             argc' = argc \<and> (r \<longrightarrow> args' = args)
               \<and> (\<forall>i. i \<noteq> argc \<or> mx \<le> i \<longrightarrow> args' i = args i)
         | Inr (s', p', args', argc') \<Rightarrow>
             (args' = args \<and> argc' = argc)
             \<or> (argc < mx \<and> argc' = argc + 1 \<and> (\<forall>i. i \<noteq> argc \<longrightarrow> args' i = args i))"
    subgoal for s len p
      using take_arg_frame [where mx = mx and subj = subj and s = s and len = len and p = p
          and args = args and argc = argc, OF refl]
      by (auto split: sum.splits)
    done
  show ?thesis
    unfolding assms [symmetric] match_step_def prod.case Let_def
    by (auto split: list.split prod.split simp: ta)
qed

lemma match_loop_frame:
  "match_loop mx subj (s, p, args, argc) = (r, args', argc') \<Longrightarrow>
     argc \<le> argc' \<and> (argc \<le> mx \<longrightarrow> argc' \<le> mx)
     \<and> (\<forall>i. i < argc \<or> mx \<le> i \<or> argc' < i \<or> (r \<and> argc' \<le> i) \<longrightarrow> args' i = args i)"
proof (induction mx subj "(s, p, args, argc)" arbitrary: s p args argc rule: match_loop.induct)
  case (1 mx subj)
  show ?case
  proof (cases "match_step mx subj (s, p, args, argc)")
    case (Inl res)
    then have "res = (r, args', argc')" using "1.prems" by (simp add: match_loop.simps)
    with match_step_frame [OF Inl] show ?thesis by auto
  next
    case (Inr st')
    obtain s1 p1 a1 c1 where st': "st' = (s1, p1, a1, c1)" by (cases st') auto
    have l: "match_loop mx subj (s1, p1, a1, c1) = (r, args', argc')"
      using "1.prems" Inr st' by (simp add: match_loop.simps)
    note ih = "1.hyps" [OF Inr [unfolded st'] l]
    from match_step_frame [OF Inr [unfolded st']]
    have "(a1 = args \<and> c1 = argc)
             \<or> (argc < mx \<and> c1 = argc + 1 \<and> (\<forall>i. i \<noteq> argc \<longrightarrow> a1 i = args i))"
      by simp
    with ih show ?thesis by auto
  qed
qed

lemma take_arg_full: "mx \<le> argc \<Longrightarrow> take_arg mx subj s len p args argc = Inl (False, args, argc)"
  by (simp add: take_arg_def)

lemma literal_prefix:
  assumes "CHR ''%'' \<notin> set lit"
  shows "length (takeWhile (\<lambda>c. c \<noteq> CHR ''%'') (lit @ CHR ''%'' # q)) = length lit"
proof -
  have "\<forall>x\<in>set lit. x \<noteq> CHR ''%''" using assms by auto
  then show ?thesis by (simp add: takeWhile_append2)
qed

lemma match_step_full:
  assumes "mx \<le> argc" "CHR ''%'' \<notin> set lit" "take 1 q \<noteq> ''%''"
  shows "match_step mx subj (s, lit @ CHR ''%'' # q, args, argc) = Inl (False, args, argc)"
proof -
  have d: "drop (length lit) (lit @ CHR ''%'' # q) = CHR ''%'' # q" by simp
  show ?thesis
    unfolding match_step_def prod.case Let_def literal_prefix [OF assms(2)] d
    using assms(1,3) by (auto simp: take_arg_full split: list.splits prod.splits)
qed

text \<open>
  C5. \<^verbatim>\<open>match_one\<close> leaves every cell \<^verbatim>\<open>args[i]\<close> with \<open>i \<ge> MAX_OPT_ARGS\<close> as it
  was, so it writes only at the indices 0 to \<open>MAX_OPT_ARGS - 1\<close>, and it never counts
  more than \<open>MAX_OPT_ARGS\<close> placeholders. When the loop reaches a placeholder (a
  \<^verbatim>\<open>%\<close> that is not followed by a second \<^verbatim>\<open>%\<close>) with \<open>MAX_OPT_ARGS\<close> placeholders
  already recorded, the match fails and the array is untouched.
\<close>

theorem args_capacity:
  "(\<forall>i. mx \<le> i \<longrightarrow> snd (match_one mx subj p args) i = args i)
   \<and> snd (snd (match_loop mx subj (0, pat, args, 0))) \<le> mx
   \<and> (mx \<le> argc \<and> CHR ''%'' \<notin> set lit \<and> take 1 q \<noteq> ''%'' \<longrightarrow>
        match_loop mx subj (s, lit @ CHR ''%'' # q, args, argc) = (False, args, argc))"
proof -
  have a: "snd (match_one mx subj p args) i = args i" if "mx \<le> i" for i
  proof (cases p)
    case None
    then show ?thesis by (simp add: match_one_def)
  next
    case (Some pt)
    obtain r a n where l: "match_loop mx subj (0, pt, args, 0) = (r, a, n)"
      by (cases "match_loop mx subj (0, pt, args, 0)") auto
    from match_loop_frame [OF l] that have "a i = args i" by blast
    then show ?thesis using Some l by (simp add: match_one_def)
  qed
  have b: "snd (snd (match_loop mx subj (0, pat, args, 0))) \<le> mx"
  proof -
    obtain r a n where l: "match_loop mx subj (0, pat, args, 0) = (r, a, n)"
      by (cases "match_loop mx subj (0, pat, args, 0)") auto
    from match_loop_frame [OF l] show ?thesis by (simp add: l)
  qed
  have c: "match_loop mx subj (s, lit @ CHR ''%'' # q, args, argc) = (False, args, argc)"
    if "mx \<le> argc" "CHR ''%'' \<notin> set lit" "take 1 q \<noteq> ''%''"
    by (simp add: match_loop.simps match_step_full [OF that])
  from a b c show ?thesis by blast
qed

theorem args_capacity_witness:
  "snd (match_one 3 ''a=1,2,3,4'' (Some ''a=%d,%d,%d,%d'') (\<lambda>_. \<lparr>sub_from = 0, sub_to = 0\<rparr>)) 3
     = \<lparr>sub_from = 0, sub_to = 0\<rparr>
   \<and> match_loop 3 ''a=1,2,3,4'' (7, '',%d'', (\<lambda>_. \<lparr>sub_from = 0, sub_to = 0\<rparr>), 3)
     = (False, (\<lambda>_. \<lparr>sub_from = 0, sub_to = 0\<rparr>), 3)"
  using args_capacity [where mx = 3 and subj = "''a=1,2,3,4''" and p = "Some ''a=%d,%d,%d,%d''"
      and args = "\<lambda>_. \<lparr>sub_from = 0, sub_to = 0\<rparr>" and argc = 3 and lit = "'',''" and q = "''d''"
      and s = 7]
  by simp

section \<open>Patterns without placeholders\<close>

text \<open>
  \<open>no_placeholder p\<close>: every \<^verbatim>\<open>%\<close> of the pattern belongs to an escape \<^verbatim>\<open>%%\<close>, read
  from the left, so the pattern holds literal text only. \<open>unescape p\<close> is that text,
  with every \<^verbatim>\<open>%%\<close> replaced by one \<^verbatim>\<open>%\<close>.
\<close>

fun no_placeholder :: "string \<Rightarrow> bool" where
  "no_placeholder [] = True"
| "no_placeholder [c] = (c \<noteq> CHR ''%'')"
| "no_placeholder (c # d # r) =
     (if c = CHR ''%'' then d = CHR ''%'' \<and> no_placeholder r else no_placeholder (d # r))"

fun unescape :: "string \<Rightarrow> string" where
  "unescape [] = []"
| "unescape [c] = [c]"
| "unescape (c # d # r) =
     (if c = CHR ''%'' \<and> d = CHR ''%'' then CHR ''%'' # unescape r else c # unescape (d # r))"

lemma no_placeholder_Cons: "c \<noteq> CHR ''%'' \<Longrightarrow> no_placeholder (c # xs) = no_placeholder xs"
  by (cases xs) auto

lemma unescape_Cons: "c \<noteq> CHR ''%'' \<Longrightarrow> unescape (c # xs) = c # unescape xs"
  by (cases xs) auto

lemma no_placeholder_lit:
  "CHR ''%'' \<notin> set lit \<Longrightarrow> no_placeholder (lit @ r) = no_placeholder r"
  by (induction lit) (auto simp: no_placeholder_Cons)

lemma unescape_lit: "CHR ''%'' \<notin> set lit \<Longrightarrow> unescape (lit @ r) = lit @ unescape r"
  by (induction lit) (auto simp: unescape_Cons)

lemma no_placeholder_percent:
  "no_placeholder (CHR ''%'' # xs) \<Longrightarrow> \<exists>r. xs = CHR ''%'' # r \<and> no_placeholder r"
  by (cases xs) auto

lemma split_at:
  "(t = lit @ c # v) =
     (take (length lit) t = lit \<and> take 1 (drop (length lit) t) = [c]
      \<and> drop (Suc (length lit)) t = v)"
proof
  assume "t = lit @ c # v"
  then show "take (length lit) t = lit \<and> take 1 (drop (length lit) t) = [c]
      \<and> drop (Suc (length lit)) t = v" by simp
next
  assume h: "take (length lit) t = lit \<and> take 1 (drop (length lit) t) = [c]
      \<and> drop (Suc (length lit)) t = v"
  let ?u = "drop (length lit) t"
  have "t = take (length lit) t @ ?u" by simp
  moreover have "?u = take 1 ?u @ drop 1 ?u" by (rule append_take_drop_id [symmetric])
  moreover have "drop 1 ?u = v" using h by simp
  ultimately show "t = lit @ c # v" using h by (metis append_Cons append_Nil)
qed

lemma match_loop_literal:
  "no_placeholder p \<Longrightarrow>
     match_loop mx subj (pos, p, args, argc) = (drop pos subj = unescape p, args, argc)"
proof (induction "length p" arbitrary: p pos rule: less_induct)
  case less
  let ?P = "\<lambda>c. c \<noteq> CHR ''%''"
  define lit where "lit = takeWhile ?P p"
  define rest where "rest = dropWhile ?P p"
  have p: "p = lit @ rest" by (simp add: lit_def rest_def)
  have nl: "CHR ''%'' \<notin> set lit" using set_takeWhileD [of "CHR ''%''" ?P p] by (auto simp: lit_def)
  have n: "length (takeWhile ?P p) = length lit" by (simp add: lit_def)
  have dr: "drop (length lit) p = rest" by (simp add: p)
  have tk: "take (length lit) p = lit" by (simp add: p)
  show ?case
  proof (cases rest)
    case Nil
    then have "unescape p = p" using unescape_lit [OF nl, of "[]"] p by simp
    then show ?thesis
      unfolding match_loop.simps [of mx subj "(pos, p, args, argc)"] match_step_def prod.case
        Let_def n dr Nil
      by auto
  next
    case (Cons x p1)
    have "dropWhile ?P p \<noteq> []" using Cons by (simp add: rest_def)
    then have "\<not> ?P (hd (dropWhile ?P p))" by (rule hd_dropWhile)
    then have x: "x = CHR ''%''" using Cons by (simp add: rest_def)
    have "no_placeholder (CHR ''%'' # p1)"
      using less.prems no_placeholder_lit [OF nl, of rest] Cons x p by simp
    then obtain p2 where p1: "p1 = CHR ''%'' # p2" and np: "no_placeholder p2"
      using no_placeholder_percent by blast
    have ue: "unescape p = lit @ CHR ''%'' # unescape p2"
      using unescape_lit [OF nl, of rest] p Cons x p1 by simp
    have len: "length p2 < length p" using p Cons p1 by simp
    note ih = less.hyps [OF len np]
    have nd: "\<not> isdigit (CHR ''%'')" by (simp add: isdigit_def)
    note sp = split_at [of "drop pos subj" lit "CHR ''%''" "unescape p2"]
    show ?thesis
      unfolding match_loop.simps [of mx subj "(pos, p, args, argc)"] match_step_def prod.case
        Let_def n dr tk Cons p1 ue
      using sp nd ih [of "pos + length lit + 1"]
      by (auto simp: ac_simps)
  qed
qed

text \<open>
  C6, as amended. A pattern without placeholders matches a subject exactly when the
  subject equals the pattern with every escape \<^verbatim>\<open>%%\<close> replaced by a single \<^verbatim>\<open>%\<close>: a
  match of the whole subject, not of a prefix. For a pattern with no \<^verbatim>\<open>%\<close> at all this
  is equality of subject and pattern. The array is not written.
\<close>

theorem literal_pattern_match:
  "(no_placeholder p \<longrightarrow> match_one mx s (Some p) args = (s = unescape p, args))
   \<and> (CHR ''%'' \<notin> set p \<longrightarrow> match_one mx s (Some p) args = (s = p, args))"
proof -
  have a: "match_one mx s (Some p) args = (s = unescape p, args)" if "no_placeholder p"
    using match_loop_literal [OF that, of mx s 0 args 0] by (simp add: match_one_def)
  have b: "match_one mx s (Some p) args = (s = p, args)" if "CHR ''%'' \<notin> set p"
  proof -
    have "no_placeholder p" "unescape p = p"
      using no_placeholder_lit [OF that, of "[]"] unescape_lit [OF that, of "[]"] by simp_all
    then show ?thesis using match_loop_literal [of p mx s 0 args 0] by (simp add: match_one_def)
  qed
  from a b show ?thesis by blast
qed

theorem literal_pattern_match_witness:
  "match_one 3 ''100%'' (Some ''100%%'') (\<lambda>_. \<lparr>sub_from = 0, sub_to = 0\<rparr>)
     = (True, (\<lambda>_. \<lparr>sub_from = 0, sub_to = 0\<rparr>))
   \<and> match_one 3 ''rox'' (Some ''ro'') (\<lambda>_. \<lparr>sub_from = 0, sub_to = 0\<rparr>)
     = (False, (\<lambda>_. \<lparr>sub_from = 0, sub_to = 0\<rparr>))
   \<and> match_one 3 ''ro'' (Some ''ro'') (\<lambda>_. \<lparr>sub_from = 0, sub_to = 0\<rparr>)
     = (True, (\<lambda>_. \<lparr>sub_from = 0, sub_to = 0\<rparr>))"
  using literal_pattern_match [where p = "''100%%''" and s = "''100%''" and mx = 3
      and args = "\<lambda>_. \<lparr>sub_from = 0, sub_to = 0\<rparr>"]
    literal_pattern_match [where p = "''ro''" and s = "''rox''" and mx = 3
      and args = "\<lambda>_. \<lparr>sub_from = 0, sub_to = 0\<rparr>"]
    literal_pattern_match [where p = "''ro''" and s = "''ro''" and mx = 3
      and args = "\<lambda>_. \<lparr>sub_from = 0, sub_to = 0\<rparr>"]
  by simp

text \<open>
  C6 with equality to the pattern itself fails for a pattern with an
  escape: \<^verbatim>\<open>"%%"\<close> has no placeholder, it does not match the subject \<^verbatim>\<open>"%%"\<close> and it
  matches the subject \<^verbatim>\<open>"%"\<close>.
\<close>

theorem escaped_percent_counterexample:
  "no_placeholder ''%%''
   \<and> \<not> fst (match_one 3 ''%%'' (Some ''%%'') (\<lambda>_. \<lparr>sub_from = 0, sub_to = 0\<rparr>))
   \<and> fst (match_one 3 ''%'' (Some ''%%'') (\<lambda>_. \<lparr>sub_from = 0, sub_to = 0\<rparr>))"
proof -
  have np: "no_placeholder ''%%''" by simp
  show ?thesis
    using np match_loop_literal [OF np, of 3 "''%%''" 0 "\<lambda>_. \<lparr>sub_from = 0, sub_to = 0\<rparr>" 0]
      match_loop_literal [OF np, of 3 "''%''" 0 "\<lambda>_. \<lparr>sub_from = 0, sub_to = 0\<rparr>" 0]
    by (simp add: match_one_def)
qed

section \<open>The table matcher\<close>

subsection \<open>The outcome of a match does not depend on the array\<close>

text \<open>
  \<open>arg_end subj s len c\<close> is what the switch on the conversion character \<open>c\<close> decides
  at the cursor \<open>s\<close>: \<open>None\<close> when \<^verbatim>\<open>args[argc].to\<close> is not stored, otherwise whether the
  placeholder is accepted and the stored \<^verbatim>\<open>to\<close>. It restates \<open>take_arg\<close> with the array
  factored out, and like \<open>take_arg\<close> it follows the code for subjects shorter than
  \<open>2 ^ 31\<close> bytes.
\<close>

definition arg_end :: "string \<Rightarrow> nat \<Rightarrow> int \<Rightarrow> char \<Rightarrow> (bool \<times> nat) option" where
  "arg_end subj s len c =
     (if c = CHR ''s'' then
        (if length (drop s subj) = 0 then None
         else Some (True, nat (int s +
                (if len = - 1 \<or> to_size_t len > int (length (drop s subj))
                 then to_int (int (length (drop s subj))) else len))))
      else if c = CHR ''d'' then
        Some (snd (strtol 0 (drop s subj)) \<noteq> 0, s + snd (strtol 0 (drop s subj)))
      else if c = CHR ''u'' then
        Some (snd (strtoul 0 (drop s subj)) \<noteq> 0, s + snd (strtoul 0 (drop s subj)))
      else if c = CHR ''o'' then
        Some (snd (strtoul 8 (drop s subj)) \<noteq> 0, s + snd (strtoul 8 (drop s subj)))
      else if c = CHR ''x'' then
        Some (snd (strtoul 16 (drop s subj)) \<noteq> 0, s + snd (strtoul 16 (drop s subj)))
      else None)"

lemma take_arg_alt:
  "take_arg mx subj s len p args argc =
     (if mx \<le> argc then Inl (False, args, argc)
      else case p of
             [] \<Rightarrow> Inl (False, args(argc := (args argc)\<lparr>sub_from := s\<rparr>), argc)
           | c # p' \<Rightarrow>
               (case arg_end subj s len c of
                  None \<Rightarrow> Inl (False, args(argc := (args argc)\<lparr>sub_from := s\<rparr>), argc)
                | Some (ok, e) \<Rightarrow>
                    if ok then Inr (e, p', args(argc := \<lparr>sub_from = s, sub_to = e\<rparr>), argc + 1)
                    else Inl (False, args(argc := \<lparr>sub_from = s, sub_to = e\<rparr>), argc)))"
  by (simp add: take_arg_def arg_end_def num_arg_def Let_def del: length_drop split: list.split)

lemma take_arg_indep_Inr:
  assumes "take_arg mx subj s len p a argc = Inr (s', p', a', c')"
  shows "a' = a(argc := \<lparr>sub_from = s, sub_to = s'\<rparr>) \<and> c' = argc + 1
       \<and> take_arg mx subj s len p b argc = Inr (s', p', b(argc := \<lparr>sub_from = s, sub_to = s'\<rparr>), c')"
  using assms unfolding take_arg_alt
  by (simp split: if_splits list.splits option.splits prod.splits)

lemma take_arg_indep_Inl:
  assumes "take_arg mx subj s len p a argc = Inl (r, a', c')"
  shows "c' = argc \<and> (\<exists>b'. take_arg mx subj s len p b argc = Inl (r, b', c'))"
  using assms unfolding take_arg_alt
  by (simp split: if_splits list.splits option.splits prod.splits)

lemma match_step_cases:
  "(\<exists>r. \<forall>a. match_step mx subj (s, p, a, argc) = Inl (r, a, argc))
   \<or> (\<exists>s' p'. \<forall>a. match_step mx subj (s, p, a, argc) = Inr (s', p', a, argc))
   \<or> (\<exists>s1 len q. \<forall>a. match_step mx subj (s, p, a, argc) = take_arg mx subj s1 len q a argc)"
proof -
  define n where "n = length (takeWhile (\<lambda>c. c \<noteq> CHR ''%'') p)"
  note d = match_step_def prod.case Let_def n_def [symmetric]
  show ?thesis
  proof (cases "drop n p")
    case Nil
    then have "\<forall>a. match_step mx subj (s, p, a, argc) = Inl (p = drop s subj, a, argc)"
      by (simp add: d)
    then show ?thesis by blast
  next
    case (Cons x p1)
    show ?thesis
    proof (cases "take n p \<noteq> take n (drop s subj)")
      case True
      then have "\<forall>a. match_step mx subj (s, p, a, argc) = Inl (False, a, argc)"
        using Cons by (simp add: d)
      then show ?thesis by blast
    next
      case eq: False
      show ?thesis
      proof (cases p1)
        case Nil
        then have "\<forall>a. match_step mx subj (s, p, a, argc)
                     = take_arg mx subj (s + n) (- 1) p1 a argc"
          using Cons eq by (simp add: d)
        then show ?thesis by blast
      next
        case p1: (Cons c p2)
        consider (digit) "isdigit c" | (pct) "\<not> isdigit c" "c = CHR ''%''"
          | (other) "\<not> isdigit c" "c \<noteq> CHR ''%''" by blast
        then show ?thesis
        proof cases
          case digit
          obtain w k where st: "strtoul 10 p1 = (w, k)" by (cases "strtoul 10 p1")
          have "\<forall>a. match_step mx subj (s, p, a, argc)
                     = take_arg mx subj (s + n) (to_int w) (drop k p1) a argc"
            using Cons eq p1 digit st [unfolded p1] by (simp add: d)
          then show ?thesis by blast
        next
          case pct
          show ?thesis
          proof (cases "take 1 (drop (s + n) subj) = ''%''")
            case True
            then have "\<forall>a. match_step mx subj (s, p, a, argc) = Inr (s + n + 1, p2, a, argc)"
              using Cons eq p1 pct by (simp add: d)
            then show ?thesis by blast
          next
            case False
            then have "\<forall>a. match_step mx subj (s, p, a, argc) = Inl (False, a, argc)"
              using Cons eq p1 pct by (simp add: d)
            then show ?thesis by blast
          qed
        next
          case other
          then have "\<forall>a. match_step mx subj (s, p, a, argc)
                     = take_arg mx subj (s + n) (- 1) p1 a argc"
            using Cons eq p1 by (simp add: d)
          then show ?thesis by blast
        qed
      qed
    qed
  qed
qed

lemma match_step_indep_Inr:
  assumes "match_step mx subj (s, p, a, argc) = Inr (s', p', a', c')"
  shows "(a' = a \<and> c' = argc \<and> (\<forall>b. match_step mx subj (s, p, b, argc) = Inr (s', p', b, c')))
       \<or> (\<exists>v. a' = a(argc := v) \<and> c' = argc + 1
             \<and> (\<forall>b. match_step mx subj (s, p, b, argc) = Inr (s', p', b(argc := v), c')))"
proof -
  from match_step_cases [of mx subj s p argc]
  consider (ret) r where "\<forall>a. match_step mx subj (s, p, a, argc) = Inl (r, a, argc)"
    | (cont) s2 p2 where "\<forall>a. match_step mx subj (s, p, a, argc) = Inr (s2, p2, a, argc)"
    | (arg) s1 len q where
        "\<forall>a. match_step mx subj (s, p, a, argc) = take_arg mx subj s1 len q a argc"
    by blast
  then show ?thesis
  proof cases
    case ret
    with assms show ?thesis by simp
  next
    case cont
    with assms show ?thesis by simp
  next
    case arg
    then have t: "take_arg mx subj s1 len q a argc = Inr (s', p', a', c')" using assms by simp
    have "\<forall>b. match_step mx subj (s, p, b, argc)
            = Inr (s', p', b(argc := \<lparr>sub_from = s1, sub_to = s'\<rparr>), c')"
      using take_arg_indep_Inr [OF t] arg by simp
    moreover have "a' = a(argc := \<lparr>sub_from = s1, sub_to = s'\<rparr>)" "c' = argc + 1"
      using take_arg_indep_Inr [OF t, of a] by simp_all
    ultimately show ?thesis by blast
  qed
qed

lemma match_step_indep_Inl:
  assumes "match_step mx subj (s, p, a, argc) = Inl (r, a', c')"
  shows "c' = argc \<and> (\<forall>b. \<exists>b'. match_step mx subj (s, p, b, argc) = Inl (r, b', c'))"
proof -
  from match_step_cases [of mx subj s p argc]
  consider (ret) r0 where "\<forall>a. match_step mx subj (s, p, a, argc) = Inl (r0, a, argc)"
    | (cont) s2 p2 where "\<forall>a. match_step mx subj (s, p, a, argc) = Inr (s2, p2, a, argc)"
    | (arg) s1 len q where
        "\<forall>a. match_step mx subj (s, p, a, argc) = take_arg mx subj s1 len q a argc"
    by blast
  then show ?thesis
  proof cases
    case ret
    with assms show ?thesis by simp
  next
    case cont
    with assms show ?thesis by simp
  next
    case arg
    then have t: "take_arg mx subj s1 len q a argc = Inl (r, a', c')" using assms by simp
    show ?thesis using take_arg_indep_Inl [OF t] arg by metis
  qed
qed

lemma match_loop_indep:
  "match_loop mx subj (s, p, a, argc) = (r, a', n) \<Longrightarrow>
     \<exists>b'. match_loop mx subj (s, p, b, argc) = (r, b', n)
           \<and> (r \<longrightarrow> (\<forall>i. argc \<le> i \<and> i < n \<longrightarrow> b' i = a' i))"
proof (induction mx subj "(s, p, a, argc)" arbitrary: s p a argc b rule: match_loop.induct)
  case (1 mx subj)
  show ?case
  proof (cases "match_step mx subj (s, p, a, argc)")
    case (Inl res)
    then have res: "res = (r, a', n)" using "1.prems" by (simp add: match_loop.simps)
    from match_step_indep_Inl [OF Inl [unfolded res]]
    obtain b' where "n = argc" "match_step mx subj (s, p, b, argc) = Inl (r, b', n)" by blast
    then show ?thesis by (auto simp: match_loop.simps)
  next
    case (Inr st')
    obtain s1 p1 a1 c1 where st': "st' = (s1, p1, a1, c1)" by (cases st') auto
    note step = Inr [unfolded st']
    have l: "match_loop mx subj (s1, p1, a1, c1) = (r, a', n)"
      using "1.prems" Inr st' by (simp add: match_loop.simps)
    note fr = match_loop_frame [OF l]
    from match_step_indep_Inr [OF step]
    consider (same) "a1 = a" "c1 = argc"
        "match_step mx subj (s, p, b, argc) = Inr (s1, p1, b, c1)"
      | (upd) v where "a1 = a(argc := v)" "c1 = argc + 1"
        "match_step mx subj (s, p, b, argc) = Inr (s1, p1, b(argc := v), c1)"
      by blast
    then show ?thesis
    proof cases
      case same
      from "1.hyps" [OF step l, of b]
      obtain b' where "match_loop mx subj (s1, p1, b, c1) = (r, b', n)"
        "r \<longrightarrow> (\<forall>i. c1 \<le> i \<and> i < n \<longrightarrow> b' i = a' i)" by blast
      with same show ?thesis by (auto simp: match_loop.simps [of mx subj "(s, p, b, argc)"])
    next
      case upd
      from "1.hyps" [OF step l, of "b(argc := v)"]
      obtain b' where b': "match_loop mx subj (s1, p1, b(argc := v), c1) = (r, b', n)"
        "r \<longrightarrow> (\<forall>i. c1 \<le> i \<and> i < n \<longrightarrow> b' i = a' i)" by blast
      have "a' argc = v" using fr upd by simp
      moreover have "b' argc = v" using match_loop_frame [OF b'(1)] upd by simp
      ultimately have av: "b' argc = a' argc" by simp
      have "r \<longrightarrow> (\<forall>i. argc \<le> i \<and> i < n \<longrightarrow> b' i = a' i)"
      proof (intro impI allI)
        fix i assume r: r and i: "argc \<le> i \<and> i < n"
        show "b' i = a' i"
        proof (cases "i = argc")
          case True
          then show ?thesis using av by simp
        next
          case False
          then have "c1 \<le> i \<and> i < n" using i upd(2) by simp
          with b'(2) r show ?thesis by blast
        qed
      qed
      with b'(1) upd show ?thesis by (auto simp: match_loop.simps [of mx subj "(s, p, b, argc)"])
    qed
  qed
qed

text \<open>
  \<open>match_argc mx s p\<close> is the number of placeholders that \<^verbatim>\<open>match_one\<close> records for the
  pattern \<open>p\<close> on the subject \<open>s\<close>: the last value of \<^verbatim>\<open>argc\<close>, which does not depend on
  the array the run starts from.
\<close>

definition match_argc :: "nat \<Rightarrow> string \<Rightarrow> string option \<Rightarrow> nat" where
  "match_argc mx s p =
     (case p of
        None \<Rightarrow> 0
      | Some pat \<Rightarrow> snd (snd (match_loop mx s (0, pat, (\<lambda>_. \<lparr>sub_from = 0, sub_to = 0\<rparr>), 0))))"

lemma match_one_indep:
  "fst (match_one mx s p a) = fst (match_one mx s p b)
   \<and> (fst (match_one mx s p a) \<longrightarrow>
        (\<forall>i. i < match_argc mx s p \<longrightarrow> snd (match_one mx s p a) i = snd (match_one mx s p b) i))"
proof (cases p)
  case None
  then show ?thesis by (simp add: match_one_def match_argc_def)
next
  case (Some pat)
  let ?z = "\<lambda>_::nat. \<lparr>sub_from = 0, sub_to = 0\<rparr>"
  obtain r a' n where la: "match_loop mx s (0, pat, a, 0) = (r, a', n)"
    by (cases "match_loop mx s (0, pat, a, 0)") auto
  from match_loop_indep [OF la, of b]
  obtain b' where lb: "match_loop mx s (0, pat, b, 0) = (r, b', n)"
    and eb: "r \<longrightarrow> (\<forall>i. i < n \<longrightarrow> b' i = a' i)" by auto
  from match_loop_indep [OF la, of ?z]
  obtain z' where lz: "match_loop mx s (0, pat, ?z, 0) = (r, z', n)" by auto
  show ?thesis using la lb lz eb Some by (simp add: match_one_def match_argc_def)
qed

subsection \<open>The scan of the table\<close>

lemma match_one_above_mx: "mx \<le> i \<Longrightarrow> snd (match_one mx subj p args) i = args i"
proof (cases p)
  case None
  then show ?thesis by (simp add: match_one_def)
next
  case (Some pt)
  assume i: "mx \<le> i"
  obtain r a n where l: "match_loop mx subj (0, pt, args, 0) = (r, a, n)"
    by (cases "match_loop mx subj (0, pt, args, 0)") auto
  from match_loop_frame [OF l] i have "a i = args i" by blast
  then show ?thesis using Some l by (simp add: match_one_def)
qed

lemma match_token_scan:
  assumes "\<exists>e\<in>set tbl. pattern e = None"
  shows "\<exists>i args'. i < length tbl
     \<and> match_token mx s tbl args = Some (token (tbl ! i), args')
     \<and> (\<forall>a. fst (match_one mx s (pattern (tbl ! i)) a))
     \<and> (\<forall>j a. j < i \<longrightarrow> \<not> fst (match_one mx s (pattern (tbl ! j)) a))
     \<and> (\<forall>k a. k < match_argc mx s (pattern (tbl ! i)) \<longrightarrow>
            args' k = snd (match_one mx s (pattern (tbl ! i)) a) k)
     \<and> (\<forall>k. mx \<le> k \<longrightarrow> args' k = args k)"
  using assms
proof (induction tbl arbitrary: args)
  case Nil
  then show ?case by simp
next
  case (Cons e tbl)
  obtain r a1 where m: "match_one mx s (pattern e) args = (r, a1)"
    by (cases "match_one mx s (pattern e) args") auto
  have ab: "\<forall>k. mx \<le> k \<longrightarrow> a1 k = args k"
    using match_one_above_mx [of mx _ s "pattern e" args] m by simp
  show ?case
  proof (cases r)
    case True
    have 1: "\<forall>a. fst (match_one mx s (pattern e) a)"
      using match_one_indep [of mx s "pattern e" args] m True by simp
    have 2: "\<forall>k a. k < match_argc mx s (pattern e) \<longrightarrow> a1 k = snd (match_one mx s (pattern e) a) k"
      using match_one_indep [of mx s "pattern e" args] m True by simp
    have "match_token mx s (e # tbl) args = Some (token e, a1)" using m True by simp
    with 1 2 ab show ?thesis by (intro exI [of _ 0] exI [of _ a1]) simp
  next
    case False
    have no: "\<forall>a. \<not> fst (match_one mx s (pattern e) a)"
      using match_one_indep [of mx s "pattern e" args] m False by simp
    have "pattern e \<noteq> None" using m False by (auto simp: match_one_def split: option.splits)

    with Cons.prems have "\<exists>e\<in>set tbl. pattern e = None" by auto
    from Cons.IH [OF this, of a1]
    obtain i args' where ih: "i < length tbl"
      "match_token mx s tbl a1 = Some (token (tbl ! i), args')"
      "\<forall>a. fst (match_one mx s (pattern (tbl ! i)) a)"
      "\<forall>j a. j < i \<longrightarrow> \<not> fst (match_one mx s (pattern (tbl ! j)) a)"
      "\<forall>k a. k < match_argc mx s (pattern (tbl ! i)) \<longrightarrow>
            args' k = snd (match_one mx s (pattern (tbl ! i)) a) k"
      "\<forall>k. mx \<le> k \<longrightarrow> args' k = a1 k" by blast
    have j: "\<forall>j a. j < Suc i \<longrightarrow> \<not> fst (match_one mx s (pattern ((e # tbl) ! j)) a)"
    proof (intro allI impI)
      fix j a assume "j < Suc i"
      then show "\<not> fst (match_one mx s (pattern ((e # tbl) ! j)) a)"
        using no ih(4) by (cases j) auto
    qed
    have "match_token mx s (e # tbl) args = Some (token ((e # tbl) ! Suc i), args')"
      using m False ih(2) by simp
    with ih(1,3,5,6) j ab show ?thesis
      by (intro exI [of _ "Suc i"] exI [of _ args']) simp
  qed
qed

text \<open>
  C1. For a table whose last entry has the null pattern and a subject shorter than
  \<open>2 ^ 31\<close> bytes (the range in which \<open>take_arg\<close> follows the code, see there),
  \<^verbatim>\<open>match_token\<close> returns (it does not run past the table), and what it returns is the token of an entry \<open>i\<close> of the
  table such that the pattern of entry \<open>i\<close> matches the subject, no earlier entry's
  pattern does (so entry \<open>i\<close> is the sentinel when no entry before it matches), the
  cells of \<^verbatim>\<open>args\<close> below the number of placeholders of entry \<open>i\<close> hold
  the spans that \<^verbatim>\<open>match_one\<close> finds for that pattern (from whatever array it starts), and
  the cells from \<open>MAX_OPT_ARGS\<close> on are unchanged. Whether a pattern matches does not
  depend on the array, hence the quantifier over \<open>a\<close>.
\<close>

theorem match_token_first_match:
  assumes "tbl \<noteq> []" "pattern (last tbl) = None" "length s < 2 ^ 31"
  shows "\<exists>i args'. i < length tbl
     \<and> match_token mx s tbl args = Some (token (tbl ! i), args')
     \<and> (\<forall>a. fst (match_one mx s (pattern (tbl ! i)) a))
     \<and> (\<forall>j a. j < i \<longrightarrow> \<not> fst (match_one mx s (pattern (tbl ! j)) a))
     \<and> ((\<forall>j a. j < length tbl - 1 \<longrightarrow> \<not> fst (match_one mx s (pattern (tbl ! j)) a))
          \<longrightarrow> tbl ! i = last tbl)
     \<and> (\<forall>k a. k < match_argc mx s (pattern (tbl ! i)) \<longrightarrow>
            args' k = snd (match_one mx s (pattern (tbl ! i)) a) k)
     \<and> (\<forall>k. mx \<le> k \<longrightarrow> args' k = args k)"
proof -
  have "last tbl \<in> set tbl" using assms(1) by simp
  with assms(2) have "\<exists>e\<in>set tbl. pattern e = None" by blast
  from match_token_scan [OF this, of mx s args]
  obtain i args' where r: "i < length tbl"
    "match_token mx s tbl args = Some (token (tbl ! i), args')"
    "\<forall>a. fst (match_one mx s (pattern (tbl ! i)) a)"
    "\<forall>j a. j < i \<longrightarrow> \<not> fst (match_one mx s (pattern (tbl ! j)) a)"
    "\<forall>k a. k < match_argc mx s (pattern (tbl ! i)) \<longrightarrow>
            args' k = snd (match_one mx s (pattern (tbl ! i)) a) k"
    "\<forall>k. mx \<le> k \<longrightarrow> args' k = args k"
    by blast
  have "tbl ! i = last tbl"
    if n: "\<forall>j a. j < length tbl - 1 \<longrightarrow> \<not> fst (match_one mx s (pattern (tbl ! j)) a)"
  proof -
    have "\<not> i < length tbl - 1" using n r(3) by blast
    with r(1) have "i = length tbl - 1" by simp
    then show ?thesis using assms(1) by (simp add: last_conv_nth)
  qed
  with r show ?thesis by blast
qed

text \<open>
  The scenario of the specification: the table \<^verbatim>\<open>ro\<close>, \<^verbatim>\<open>rw\<close>, \<^verbatim>\<open>uid=%u\<close>, sentinel,
  against \<^verbatim>\<open>uid=1000\<close>, gives the third token with one span over \<^verbatim>\<open>1000\<close>, from
  which \<^verbatim>\<open>match_int\<close> extracts 1000.
\<close>

lemma Suc4_eq: "Suc (Suc (Suc (Suc 0))) = 4"
  by simp

lemma uid_scenario:
  "match_token 3 ''uid=1000''
     [\<lparr>token = 1, pattern = Some ''ro''\<rparr>, \<lparr>token = 2, pattern = Some ''rw''\<rparr>,
      \<lparr>token = 3, pattern = Some ''uid=%u''\<rparr>, \<lparr>token = - 1, pattern = None\<rparr>] args
   = Some (3, args(0 := \<lparr>sub_from = 4, sub_to = 8\<rparr>))
   \<and> match_int True ''uid=1000'' \<lparr>sub_from = 4, sub_to = 8\<rparr> r = (0, 1000)"
proof -
  have ro: "match_one 3 ''uid=1000'' (Some ''ro'') args = (False, args)"
    by (simp add: match_one_def match_loop.simps match_step_def)
  have rw: "match_one 3 ''uid=1000'' (Some ''rw'') args = (False, args)"
    by (simp add: match_one_def match_loop.simps match_step_def)
  have u: "snd (strtoul 0 ''1000'') = 4"
    by (simp add: strto_defs)
  have uid: "match_one 3 ''uid=1000'' (Some ''uid=%u'') args
               = (True, args(0 := \<lparr>sub_from = 4, sub_to = 8\<rparr>))"
    by (simp add: match_one_def match_loop.simps match_step_def take_arg_def num_arg_def
        isdigit_def u Suc4_eq)
  have i: "match_int True ''uid=1000'' \<lparr>sub_from = 4, sub_to = 8\<rparr> r = (0, 1000)"
    by (simp add: match_int_def match_number_def substring_def strto_defs)
  from ro rw uid i show ?thesis by simp
qed

theorem match_token_first_match_witness:
  "\<exists>i args'.
     i < length [\<lparr>token = 1, pattern = Some ''ro''\<rparr>, \<lparr>token = 2, pattern = Some ''rw''\<rparr>,
           \<lparr>token = 3, pattern = Some ''uid=%u''\<rparr>, \<lparr>token = - 1, pattern = None\<rparr>]
     \<and> match_token 3 ''uid=1000''
          [\<lparr>token = 1, pattern = Some ''ro''\<rparr>, \<lparr>token = 2, pattern = Some ''rw''\<rparr>,
           \<lparr>token = 3, pattern = Some ''uid=%u''\<rparr>, \<lparr>token = - 1, pattern = None\<rparr>]
          (\<lambda>_. \<lparr>sub_from = 0, sub_to = 0\<rparr>)
        = Some (token ([\<lparr>token = 1, pattern = Some ''ro''\<rparr>, \<lparr>token = 2, pattern = Some ''rw''\<rparr>,
           \<lparr>token = 3, pattern = Some ''uid=%u''\<rparr>, \<lparr>token = - 1, pattern = None\<rparr>] ! i), args')"
proof -
  let ?tbl = "[\<lparr>token = 1, pattern = Some ''ro''\<rparr>, \<lparr>token = 2, pattern = Some ''rw''\<rparr>,
           \<lparr>token = 3, pattern = Some ''uid=%u''\<rparr>, \<lparr>token = - 1, pattern = None\<rparr>]"
  have h1: "?tbl \<noteq> []" by simp
  have h2: "pattern (last ?tbl) = None" by simp
  have h3: "length ''uid=1000'' < 2 ^ 31" by simp
  from match_token_first_match [OF h1 h2 h3, where mx = 3
      and args = "\<lambda>_. \<lparr>sub_from = 0, sub_to = 0\<rparr>"]
  show ?thesis by blast
qed

section \<open>The wildcard matcher\<close>

subsection \<open>Termination\<close>

text \<open>
  With \<open>P\<close> and \<open>S\<close> the lengths of the pattern and of the subject that
  \<^verbatim>\<open>match_wildcard\<close> is called with, every state of the loop satisfies \<open>wc_inv P S\<close>, and
  every pass through the body lowers \<open>wc_measure P S\<close>: going back after a mismatch
  shortens \<^verbatim>\<open>str\<close>, every other pass shortens \<^verbatim>\<open>p\<close> or \<^verbatim>\<open>s\<close>.
\<close>

definition wc_inv :: "nat \<Rightarrow> nat \<Rightarrow> wc_state \<Rightarrow> bool" where
  "wc_inv P S st =
     (case st of
        (pat, str, p, s, star) \<Rightarrow>
          length p \<le> P \<and> length s \<le> S
          \<and> (star \<longrightarrow> length pat \<le> P \<and> length str \<le> S \<and> length s \<le> length str))"

definition wc_measure :: "nat \<Rightarrow> nat \<Rightarrow> wc_state \<Rightarrow> nat" where
  "wc_measure P S st =
     (case st of
        (pat, str, p, s, star) \<Rightarrow>
          (if star then length str else length s + 1) * (P + S + 1) + length p + length s)"

lemma lex_less:
  fixes a b a' b' K :: nat
  assumes "b' < K" "a' < a"
  shows "a' * K + b' < a * K + b"
proof -
  have "(a' + 1) * K \<le> a * K" using assms(2) by (intro mult_le_mono1) simp
  then have "a' * K + K \<le> a * K" by simp
  with assms(1) show ?thesis by linarith
qed

lemma wc_step_decreases:
  assumes "wc_inv P S st" "wc_step st = Inr st'"
  shows "wc_inv P S st' \<and> wc_measure P S st' < wc_measure P S st"
proof -
  obtain pat str p s star where st: "st = (pat, str, p, s, star)" by (cases st) auto
  from assms(1) have i: "length p \<le> P" "length s \<le> S"
    "star \<Longrightarrow> length pat \<le> P \<and> length str \<le> S \<and> length s \<le> length str"
    by (simp_all add: wc_inv_def st)
  from assms(2) obtain sc s' where s: "s = sc # s'"
    by (cases s) (auto simp: wc_step_def st)
  let ?K = "P + S + 1"
  have "(st' = (pat, str, drop 1 p, s', star) \<and> p \<noteq> [])
      \<or> (st' = (drop 1 p, s, drop 1 p, s, True) \<and> p \<noteq> [])
      \<or> (st' = (pat, drop 1 str, pat, drop 1 str, star) \<and> star)"
    using assms(2) by (auto simp: wc_step_def st s split: if_splits)
  then consider (adv) "st' = (pat, str, drop 1 p, s', star)" "p \<noteq> []"
    | (star) "st' = (drop 1 p, s, drop 1 p, s, True)" "p \<noteq> []"
    | (again) "st' = (pat, drop 1 str, pat, drop 1 str, star)" "star"
    by blast
  then show ?thesis
  proof cases
    case adv
    have inv: "wc_inv P S st'" using i s adv by (auto simp: wc_inv_def)
    have "wc_measure P S st' < wc_measure P S st"
    proof (cases star)
      case True
      then show ?thesis using adv s by (simp add: wc_measure_def st)
    next
      case False
      have "length (drop 1 p) + length s' < ?K" using i s by simp
      from lex_less [OF this, of "length s' + 1" "length s + 1" "length p + length s"]
      show ?thesis using False adv s by (simp add: wc_measure_def st)
    qed
    with inv show ?thesis by simp
  next
    case star
    have inv: "wc_inv P S st'" using i star by (auto simp: wc_inv_def)
    have b: "length (drop 1 p) + length s < ?K" using i by simp
    have "wc_measure P S st' < wc_measure P S st"
    proof (cases "\<not> star \<or> length s < length str")
      case True
      then have "length s < (if star then length str else length s + 1)" by auto
      from lex_less [OF b this, of "length p + length s"]
      show ?thesis using star by (simp add: wc_measure_def st)
    next
      case False
      then have "star" "length s = length str" using i(3) by auto
      then show ?thesis using star by (simp add: wc_measure_def st)
    qed
    with inv show ?thesis by simp
  next
    case again
    note j = i(3) [OF again(2)]
    have ne: "str \<noteq> []" using j s by auto
    have inv: "wc_inv P S st'" using j again by (auto simp: wc_inv_def)
    have "length pat + length (drop 1 str) < ?K" using j by auto
    moreover have "length (drop 1 str) < length str" using ne by simp
    ultimately have "length (drop 1 str) * ?K + (length pat + length (drop 1 str))
                     < length str * ?K + (length p + length s)"
      by (rule lex_less)
    then have "wc_measure P S st' < wc_measure P S st"
      using again by (simp add: wc_measure_def st)
    with inv show ?thesis by simp
  qed
qed

lemma wc_run_enough:
  "wc_inv P S st \<Longrightarrow> wc_measure P S st < n \<Longrightarrow> wc_run n st = Some (wc_loop st)"
proof (induction n arbitrary: st)
  case 0
  then show ?case by simp
next
  case (Suc n)
  show ?case
  proof (cases "wc_step st")
    case (Inl r)
    then show ?thesis by (simp add: wc_loop.simps)
  next
    case (Inr st')
    from wc_step_decreases [OF Suc.prems(1) Inr] Suc.prems(2)
    have "wc_inv P S st'" "wc_measure P S st' < n" by simp_all
    from Suc.IH [OF this] Inr show ?thesis by (simp add: wc_loop.simps [of st])
  qed
qed

text \<open>
  C9. \<^verbatim>\<open>match_wildcard\<close> returns for every pattern and every subject: the loop, run with a
  bound on the number of steps that is quadratic in the lengths of the two strings, ends
  within the bound, with the value of \<^verbatim>\<open>match_wildcard\<close>.
\<close>

theorem match_wildcard_terminates:
  "wc_run ((length str + 1) * (length pat + length str + 1) + length pat + length str + 1)
     (pat, str, pat, str, False) = Some (match_wildcard pat str)"
proof -
  have "wc_inv (length pat) (length str) (pat, str, pat, str, False)"
    by (simp add: wc_inv_def)
  moreover have "wc_measure (length pat) (length str) (pat, str, pat, str, False)
        < (length str + 1) * (length pat + length str + 1) + length pat + length str + 1"
    by (simp add: wc_measure_def)
  ultimately show ?thesis unfolding match_wildcard_def by (rule wc_run_enough)
qed

subsection \<open>The loop against the meaning of a pattern\<close>

text \<open>
  \<open>consumed q u\<close>: the pattern characters \<open>q\<close>, none of them a star, have been matched
  one by one against the subject characters \<open>u\<close>. \<open>no_double_star p\<close>: the pattern does
  not end in two stars.
\<close>

definition consumed :: "string \<Rightarrow> string \<Rightarrow> bool" where
  "consumed q u = list_all2 (\<lambda>c x. c \<noteq> CHR ''*'' \<and> (c = CHR ''?'' \<or> c = x)) q u"

definition no_double_star :: "string \<Rightarrow> bool" where
  "no_double_star p = (\<forall>q. p \<noteq> q @ ''**'')"

lemma glob_star_Cons:
  "glob_matches (CHR ''*'' # p) s = (glob_matches p s \<or> (s \<noteq> [] \<and> glob_matches (CHR ''*'' # p) (tl s)))"
  by (cases s) auto

lemma glob_nonstar_Cons:
  "c \<noteq> CHR ''*'' \<Longrightarrow>
     glob_matches (c # p) s = (s \<noteq> [] \<and> (c = CHR ''?'' \<or> c = hd s) \<and> glob_matches p (tl s))"
  by (cases s) auto

lemma glob_consumed:
  "consumed q u \<Longrightarrow> glob_matches (q @ r) (u @ t) = glob_matches r t"
  unfolding consumed_def
  by (induction q u rule: list_all2_induct) (auto simp: glob_nonstar_Cons)

lemma glob_star:
  "glob_matches (CHR ''*'' # p) s = (\<exists>k\<le>length s. glob_matches p (drop k s))"
proof (induction s)
  case Nil
  then show ?case by simp
next
  case (Cons x s)
  have "(\<exists>k\<le>length (x # s). glob_matches p (drop k (x # s)))
        = (glob_matches p (x # s) \<or> (\<exists>k\<le>length s. glob_matches p (drop k s)))"
  proof
    assume "\<exists>k\<le>length (x # s). glob_matches p (drop k (x # s))"
    then obtain k where k: "k \<le> length (x # s)" "glob_matches p (drop k (x # s))" by blast
    show "glob_matches p (x # s) \<or> (\<exists>k\<le>length s. glob_matches p (drop k s))"
    proof (cases k)
      case 0
      with k show ?thesis by simp
    next
      case (Suc j)
      with k have "j \<le> length s" "glob_matches p (drop j s)" by simp_all
      then show ?thesis by blast
    qed
  next
    assume "glob_matches p (x # s) \<or> (\<exists>k\<le>length s. glob_matches p (drop k s))"
    then show "\<exists>k\<le>length (x # s). glob_matches p (drop k (x # s))"
    proof
      assume "glob_matches p (x # s)"
      then show ?thesis by (intro exI [of _ 0]) simp
    next
      assume "\<exists>k\<le>length s. glob_matches p (drop k s)"
      then obtain k where "k \<le> length s" "glob_matches p (drop k s)" by blast
      then show ?thesis by (intro exI [of _ "Suc k"]) simp
    qed
  qed
  with Cons show ?case by simp
qed

lemma glob_length:
  "glob_matches p s \<Longrightarrow> length (filter (\<lambda>c. c \<noteq> CHR ''*'') p) \<le> length s"
  by (induction p s rule: glob_matches.induct) (auto split: if_splits)

lemma glob_empty: "glob_matches p [] = (\<forall>c\<in>set p. c = CHR ''*'')"
  by (induction p) auto

lemma glob_prefix:
  "CHR ''*'' \<notin> set q \<Longrightarrow> glob_matches (q @ r) t \<Longrightarrow>
     length q \<le> length t \<and> glob_matches r (drop (length q) t)"
proof (induction q arbitrary: t)
  case Nil
  then show ?case by simp
next
  case (Cons c q)
  then have c: "c \<noteq> CHR ''*''" by auto
  from Cons.prems(2) have t: "t \<noteq> []" "glob_matches (q @ r) (tl t)"
    using glob_nonstar_Cons [OF c, of "q @ r" t] by simp_all
  from Cons.IH [OF _ t(2)] Cons.prems(1) t(1) show ?case
    by (cases t) auto
qed

lemma consumed_props:
  assumes "consumed q u"
  shows "length q = length u" "CHR ''*'' \<notin> set q"
  using assms unfolding consumed_def
  by (auto dest: list_all2_lengthD simp: list_all2_conv_all_nth in_set_conv_nth)

lemma consumed_snoc:
  "consumed q u \<Longrightarrow> c \<noteq> CHR ''*'' \<Longrightarrow> c = CHR ''?'' \<or> c = x \<Longrightarrow> consumed (q @ [c]) (u @ [x])"
  unfolding consumed_def by (simp add: list_all2_appendI)

lemma consumed_Nil: "consumed [] []"
  by (simp add: consumed_def)

lemma no_double_star_suffix: "no_double_star (q @ p) \<Longrightarrow> no_double_star p"
proof -
  assume a: "no_double_star (q @ p)"
  show "no_double_star p"
    unfolding no_double_star_def
  proof (intro allI notI)
    fix r assume "p = r @ ''**''"
    then have "q @ p = (q @ r) @ ''**''" by simp
    with a show False unfolding no_double_star_def by blast
  qed
qed

lemma all_stars_short:
  assumes "no_double_star p" "\<forall>c\<in>set p. c = CHR ''*''"
  shows "p = [] \<or> p = ''*''"
proof (rule ccontr)
  assume n: "\<not> (p = [] \<or> p = ''*'')"
  have r: "replicate (length p) (CHR ''*'') = p"
    using assms(2) by (intro replicate_length_same) simp
  have "2 \<le> length p"
  proof (cases p)
    case Nil
    with n show ?thesis by simp
  next
    case (Cons a p')
    then have "a = CHR ''*''" using assms(2) by simp
    with n Cons have "p' \<noteq> []" by auto
    with Cons show ?thesis by (cases p') auto
  qed
  then obtain m where m: "length p = m + 2" by (metis le_Suc_ex add.commute)
  have "p = replicate m (CHR ''*'') @ replicate 2 (CHR ''*'')"
    using r m by (simp add: replicate_add [symmetric])
  also have "replicate 2 (CHR ''*'') = ''**''" by (simp add: numeral_2_eq_2)
  finally show False using assms(1) unfolding no_double_star_def by blast
qed

lemma wc_loop_Inl: "wc_step st = Inl r \<Longrightarrow> wc_loop st = r"
  by (simp add: wc_loop.simps)

lemma wc_loop_Inr: "wc_step st = Inr st' \<Longrightarrow> wc_loop st = wc_loop st'"
  by (simp add: wc_loop.simps)

lemma glob_shift:
  assumes "str \<noteq> []" "\<not> glob_matches pat str"
  shows "(\<exists>k\<le>length str. glob_matches pat (drop k str))
       = (\<exists>k\<le>length (drop 1 str). glob_matches pat (drop k (drop 1 str)))"
proof
  assume "\<exists>k\<le>length str. glob_matches pat (drop k str)"
  then obtain k where k: "k \<le> length str" "glob_matches pat (drop k str)" by blast
  with assms(2) obtain j where j: "k = Suc j" by (cases k) auto
  with k have "j \<le> length (drop 1 str)" "glob_matches pat (drop j (drop 1 str))" by simp_all
  then show "\<exists>k\<le>length (drop 1 str). glob_matches pat (drop k (drop 1 str))" by blast
next
  assume "\<exists>k\<le>length (drop 1 str). glob_matches pat (drop k (drop 1 str))"
  then obtain k where k: "k \<le> length (drop 1 str)" "glob_matches pat (drop k (drop 1 str))"
    by blast
  with assms(1) have "Suc k \<le> length str" "glob_matches pat (drop (Suc k) str)"
    by (cases str; simp)+
  then show "\<exists>k\<le>length str. glob_matches pat (drop k str)" by blast
qed

lemma glob_behind_star:
  assumes "consumed q u"
  shows "(\<exists>k\<le>length (u @ s). glob_matches (q @ CHR ''*'' # p') (drop k (u @ s)))
       = glob_matches (CHR ''*'' # p') s"
proof
  assume "glob_matches (CHR ''*'' # p') s"
  then have "glob_matches (q @ CHR ''*'' # p') (drop 0 (u @ s))"
    using glob_consumed [OF assms] by simp
  then show "\<exists>k\<le>length (u @ s). glob_matches (q @ CHR ''*'' # p') (drop k (u @ s))" by blast
next
  assume "\<exists>k\<le>length (u @ s). glob_matches (q @ CHR ''*'' # p') (drop k (u @ s))"
  then obtain k where k: "glob_matches (q @ CHR ''*'' # p') (drop k (u @ s))" by blast
  note cp = consumed_props [OF assms]
  from glob_prefix [OF cp(2) k]
  have g: "glob_matches (CHR ''*'' # p') (drop (length q) (drop k (u @ s)))" by simp
  have "drop (length q) (drop k (u @ s)) = drop (length q + k) (u @ s)" by (simp only: drop_drop)
  also have "\<dots> = drop (k + length u) (u @ s)" by (simp only: cp(1) add.commute)
  also have "\<dots> = drop k (drop (length u) (u @ s))" by (simp only: drop_drop)
  also have "\<dots> = drop k s" by simp
  finally have e: "drop (length q) (drop k (u @ s)) = drop k s" .
  have "glob_matches (CHR ''*'' # p') (drop k s)" using g by (simp only: e)
  then obtain j where "glob_matches p' (drop j (drop k s))"
    using glob_star [of p' "drop k s"] by blast
  then have "glob_matches p' (drop (j + k) s)" by (simp only: drop_drop)
  then have "\<exists>i\<le>length s. glob_matches p' (drop i s)"
  proof (cases "j + k \<le> length s")
    case True
    assume "glob_matches p' (drop (j + k) s)"
    with True show ?thesis by blast
  next
    case False
    assume "glob_matches p' (drop (j + k) s)"
    with False have "glob_matches p' (drop (length s) s)" by simp
    then show ?thesis by blast
  qed
  then show "glob_matches (CHR ''*'' # p') s" unfolding glob_star .
qed

lemma glob_too_short:
  assumes "consumed q u" "\<not> (\<forall>c\<in>set p. c = CHR ''*'')"
  shows "\<not> glob_matches (q @ p) (drop k u)"
proof
  assume "glob_matches (q @ p) (drop k u)"
  from glob_length [OF this]
  have "length (filter (\<lambda>c. c \<noteq> CHR ''*'') q) + length (filter (\<lambda>c. c \<noteq> CHR ''*'') p) \<le> length u"
    by simp
  moreover have "filter (\<lambda>c. c \<noteq> CHR ''*'') q = q"
    using consumed_props(2) [OF assms(1)] by (induction q) auto
  moreover have "filter (\<lambda>c. c \<noteq> CHR ''*'') p \<noteq> []"
    using assms(2) by (auto simp: filter_empty_conv)
  ultimately show False using consumed_props(1) [OF assms(1)]
    by (cases "filter (\<lambda>c. c \<noteq> CHR ''*'') p") auto
qed

lemma wc_loop_correct:
  "(\<not> star \<longrightarrow> no_double_star p \<longrightarrow> wc_loop (pat, str, p, s, star) = glob_matches p s)
   \<and> (star \<longrightarrow> no_double_star pat \<longrightarrow>
        (\<forall>q u. pat = q @ p \<and> str = u @ s \<and> consumed q u \<longrightarrow>
           wc_loop (pat, str, p, s, star) = (\<exists>k\<le>length str. glob_matches pat (drop k str))))"
proof (induction "(pat, str, p, s, star)" arbitrary: pat str p s star rule: wc_loop.induct)
  case 1
  note IH = "1.hyps"
  let ?st = "(pat, str, p, s, star)"
  show ?case
  proof (cases s)
    case Nil
    have l: "wc_loop ?st = (p = [] \<or> p = ''*'')"
      by (rule wc_loop_Inl) (simp add: wc_step_def Nil)
    have a: "wc_loop ?st = glob_matches p s" if "no_double_star p"
      using all_stars_short [OF that] glob_empty [of p] l Nil by auto
    have b: "wc_loop ?st = (\<exists>k\<le>length str. glob_matches pat (drop k str))"
      if "no_double_star pat" "pat = q @ p" "str = u @ s" "consumed q u" for q u
    proof (cases "\<forall>c\<in>set p. c = CHR ''*''")
      case True
      have nd: "no_double_star p" using that(1,2) no_double_star_suffix by blast
      have "glob_matches (q @ p) u"
        using glob_consumed [OF that(4), of p "[]"] True glob_empty [of p] by simp
      then have "glob_matches pat (drop 0 str)" using that Nil by simp
      then have "\<exists>k\<le>length str. glob_matches pat (drop k str)" by blast
      moreover have "p = [] \<or> p = ''*''" by (rule all_stars_short [OF nd True])
      ultimately show ?thesis using l by simp
    next
      case False
      then have "\<not> (p = [] \<or> p = ''*'')" by auto
      moreover have "\<not> (\<exists>k\<le>length str. glob_matches pat (drop k str))"
        using glob_too_short [OF that(4) False] that(2,3) Nil by simp
      ultimately show ?thesis using l by simp
    qed
    from a b show ?thesis by blast
  next
    case (Cons sc s')
    consider (quest) p' where "p = CHR ''?'' # p'"
      | (star) p' where "p = CHR ''*'' # p'"
      | (lit) p' where "p = sc # p'" "sc \<noteq> CHR ''?''" "sc \<noteq> CHR ''*''"
      | (miss) "p = [] \<or> (\<exists>c p'. p = c # p' \<and> c \<noteq> CHR ''?'' \<and> c \<noteq> CHR ''*'' \<and> c \<noteq> sc)"
      by (cases p) auto
    then show ?thesis
    proof cases
      case quest
      have step: "wc_step ?st = Inr (pat, str, p', s', star)"
        by (simp add: wc_step_def Cons quest)
      note l = wc_loop_Inr [OF step]
      note ih = IH [OF step]
      have g: "glob_matches p s = glob_matches p' s'" by (simp add: quest Cons)
      have a: "wc_loop ?st = glob_matches p s" if "\<not> star" "no_double_star p"
      proof -
        have "no_double_star p'" using that(2) no_double_star_suffix [of "''?''" p'] quest by simp
        with ih that(1) l g show ?thesis by simp
      qed
      have b: "wc_loop ?st = (\<exists>k\<le>length str. glob_matches pat (drop k str))"
        if "star" "no_double_star pat" "pat = q @ p" "str = u @ s" "consumed q u" for q u
      proof -
        have "pat = (q @ ''?'') @ p'" "str = (u @ [sc]) @ s'" using that quest Cons by simp_all
        moreover have "consumed (q @ ''?'') (u @ [sc])" using that(5) by (intro consumed_snoc) simp_all
        ultimately show ?thesis using ih that(1,2) l by blast
      qed
      from a b show ?thesis by blast
    next
      case lit
      have step: "wc_step ?st = Inr (pat, str, p', s', star)"
        using lit by (simp add: wc_step_def Cons)
      note l = wc_loop_Inr [OF step]
      note ih = IH [OF step]
      have g: "glob_matches p s = glob_matches p' s'" using lit by (simp add: Cons)
      have a: "wc_loop ?st = glob_matches p s" if "\<not> star" "no_double_star p"
      proof -
        have "no_double_star p'" using that(2) no_double_star_suffix [of "[sc]" p'] lit by simp
        with ih that(1) l g show ?thesis by simp
      qed
      have b: "wc_loop ?st = (\<exists>k\<le>length str. glob_matches pat (drop k str))"
        if "star" "no_double_star pat" "pat = q @ p" "str = u @ s" "consumed q u" for q u
      proof -
        have "pat = (q @ [sc]) @ p'" "str = (u @ [sc]) @ s'" using that lit Cons by simp_all
        moreover have "consumed (q @ [sc]) (u @ [sc])" using that(5) lit by (intro consumed_snoc) simp_all
        ultimately show ?thesis using ih that(1,2) l by blast
      qed
      from a b show ?thesis by blast
    next
      case star
      show ?thesis
      proof (cases "p' = []")
        case True
        have l: "wc_loop ?st = True"
          by (rule wc_loop_Inl) (simp add: wc_step_def Cons star True)
        have g: "glob_matches (CHR ''*'' # p') s"
          unfolding glob_star using True by (intro exI [of _ "length s"]) simp
        have a: "wc_loop ?st = glob_matches p s" using l g star by simp
        have b: "wc_loop ?st = (\<exists>k\<le>length str. glob_matches pat (drop k str))"
          if "pat = q @ p" "str = u @ s" "consumed q u" for q u
          using glob_behind_star [OF that(3), of s p'] g that(1,2) star l by simp
        from a b show ?thesis by blast
      next
        case False
        have step: "wc_step ?st = Inr (p', s, p', s, True)"
          using False by (simp add: wc_step_def Cons star)
        note l = wc_loop_Inr [OF step]
        note ih = IH [OF step]
        have main: "wc_loop ?st = glob_matches p s" if "no_double_star p'"
        proof -
          have "wc_loop (p', s, p', s, True) = (\<exists>k\<le>length s. glob_matches p' (drop k s))"
            using ih that consumed_Nil by simp
          then show ?thesis using l star by (simp add: glob_star)
        qed
        have a: "wc_loop ?st = glob_matches p s" if "no_double_star p"
          using main no_double_star_suffix [of "''*''" p'] that star by simp
        have b: "wc_loop ?st = (\<exists>k\<le>length str. glob_matches pat (drop k str))"
          if "no_double_star pat" "pat = q @ p" "str = u @ s" "consumed q u" for q u
        proof -
          have "no_double_star p'"
            using that(1,2) star no_double_star_suffix [of "q @ ''*''" p'] by simp
          from main [OF this] glob_behind_star [OF that(4), of s p'] that(2,3) star
          show ?thesis by simp
        qed
        from a b show ?thesis by blast
      qed
    next
      case miss
      have g: "\<not> glob_matches p s" using miss Cons by auto
      show ?thesis
      proof (cases star)
        case False
        have "wc_loop ?st = False"
          using miss False by (intro wc_loop_Inl) (auto simp: wc_step_def Cons)
        with g False show ?thesis by simp
      next
        case True
        have step: "wc_step ?st = Inr (pat, drop 1 str, pat, drop 1 str, True)"
          using miss True by (auto simp: wc_step_def Cons)
        note l = wc_loop_Inr [OF step]
        note ih = IH [OF step]
        have b: "wc_loop ?st = (\<exists>k\<le>length str. glob_matches pat (drop k str))"
          if "no_double_star pat" "pat = q @ p" "str = u @ s" "consumed q u" for q u
        proof -
          have "wc_loop (pat, drop 1 str, pat, drop 1 str, True)
                 = (\<exists>k\<le>length (drop 1 str). glob_matches pat (drop k (drop 1 str)))"
            using ih that(1) consumed_Nil by simp
          moreover have "\<not> glob_matches pat str"
            using glob_consumed [OF that(4), of p s] g that(2,3) by simp
          moreover have "str \<noteq> []" using that(3) Cons by simp
          ultimately show ?thesis using l glob_shift by simp
        qed
        from b True show ?thesis by blast
      qed
    qed
  qed
qed

lemma match_wildcard_glob:
  "no_double_star pat \<Longrightarrow> match_wildcard pat str = glob_matches pat str"
  using wc_loop_correct [of False pat pat str str] by (simp add: match_wildcard_def)

lemma no_double_star_iff: "no_double_star p = (drop (length p - 2) p \<noteq> ''**'')"
proof
  assume n: "no_double_star p"
  show "drop (length p - 2) p \<noteq> ''**''"
  proof
    assume "drop (length p - 2) p = ''**''"
    then have "p = take (length p - 2) p @ ''**''" by (metis append_take_drop_id)
    with n show False unfolding no_double_star_def by blast
  qed
next
  assume d: "drop (length p - 2) p \<noteq> ''**''"
  show "no_double_star p"
    unfolding no_double_star_def
  proof (intro allI notI)
    fix q assume "p = q @ ''**''"
    then have "drop (length p - 2) p = ''**''" by simp
    with d show False by simp
  qed
qed

text \<open>
  C2. The examples hold: \<^verbatim>\<open>a*c\<close> matches \<^verbatim>\<open>abc\<close> and \<^verbatim>\<open>ac\<close>, \<^verbatim>\<open>a?c\<close> matches
  \<^verbatim>\<open>abc\<close> and not \<^verbatim>\<open>ac\<close>, and \<^verbatim>\<open>*\<close> matches every subject, the empty one included. By
  \<open>match_wildcard_glob\<close> the function decides the whole-string match for every pattern
  that does not end in two stars.
\<close>

lemma match_wildcard_examples:
  "match_wildcard ''a*c'' ''abc'' \<and> match_wildcard ''a*c'' ''ac''
   \<and> match_wildcard ''a?c'' ''abc'' \<and> \<not> match_wildcard ''a?c'' ''ac''
   \<and> match_wildcard ''*'' s"
proof -
  have "match_wildcard ''*'' s"
    by (cases s) (simp_all add: match_wildcard_def wc_loop.simps wc_step_def)
  then show ?thesis
    by (simp add: match_wildcard_def wc_loop.simps wc_step_def)
qed

lemma match_wildcard_glob_example:
  "match_wildcard ''*a*b'' ''xaxbxab'' = glob_matches ''*a*b'' ''xaxbxab''"
  by (rule match_wildcard_glob) (simp add: no_double_star_iff)

text \<open>
  C2, where the code departs from it. After the loop only one star is skipped
  (\<^verbatim>\<open>if (*p == '*') ++p;\<close>), so a pattern that still has two or more stars left when the
  subject is exhausted is rejected, although each star matches zero characters:
  \<^verbatim>\<open>**\<close> does not match the empty subject and \<^verbatim>\<open>a**\<close> does not match \<^verbatim>\<open>a\<close>. Inside the
  loop the same stars are accepted: \<^verbatim>\<open>**\<close> matches \<^verbatim>\<open>a\<close>.
\<close>

theorem match_wildcard_trailing_stars:
  "match_wildcard ''**'' [] = False \<and> glob_matches ''**'' [] = True
   \<and> match_wildcard ''**'' ''a'' = True
   \<and> match_wildcard ''a**'' ''a'' = False \<and> glob_matches ''a**'' ''a'' = True"
  by (simp add: match_wildcard_def wc_loop.simps wc_step_def)

end
